theory Spec2Isabelle
  imports Main "HOL-Library.AList"
begin

section \<open>The orchestrator of \<open>src/index.js\<close> as a shallow embedding\<close>

text \<open>
  The JavaScript object \<open>Orchestrator\<close> keeps a registry of task objects, the
  sequence of names of the current run, a running flag and the completion
  notifier. Its methods mutate that object; here every method takes the state
  and returns the new one. What a method does to the outside world (calling an
  executor, registering handlers on a returned handle, calling the notifier)
  is appended to the field \<open>trace\<close>.

  Console output under \<open>verbose\<close> is left out: no decision of the code
  depends on it.
\<close>

subsection \<open>Values\<close>

type_synonym name = string

text \<open>
  The values that travel as errors. \<open>Undefined\<close>, \<open>Null\<close> and the empty
  string are the falsy ones; error objects are truthy.
\<close>

datatype jsval =
    Undefined
  | Null
  | Str string
  | TypeError
  | ConfigurationError string
  | DependencyError name "name option"
  | CircularDependencyError "name list"

fun truthy :: "jsval \<Rightarrow> bool" where
  "truthy Undefined = False"
| "truthy Null = False"
| "truthy (Str s) = (s \<noteq> [])"
| "truthy _ = True"

text \<open>\<open>a || b\<close> on values.\<close>

definition or_else :: "jsval \<Rightarrow> jsval \<Rightarrow> jsval" where
  "or_else a b = (if truthy a then a else b)"

subsection \<open>Executors\<close>

text \<open>
  What \<open>task.fn.call(this, cb)\<close> does, seen from \<open>_runTask\<close>: the function
  has a declared parameter count (\<open>fn.length\<close>); during the call it may invoke
  \<open>cb\<close> any number of times, each time with a value; then it either returns
  (\<open>Returns True\<close>: a value \<open>p\<close> with a truthy \<open>p.done\<close>; \<open>Returns False\<close>:
  anything else) or throws. An exception raised inside \<open>cb\<close> is not caught by
  the executor. Invocations of \<open>cb\<close> and of the handlers given to \<open>p.done\<close>
  after the call has returned are the separate operations \<open>cb\<close>,
  \<open>onResolved\<close> and \<open>onRejected\<close> below. An executor does not call the
  orchestrator's methods other than through \<open>cb\<close>, and \<open>p.done\<close> and the
  notifier return normally without calling back into the orchestrator.
\<close>

datatype outcome = Returns bool | Throws jsval

record executor =
  params :: nat
  sync_calls :: "jsval list"
  outcome :: outcome

text \<open>
  \<open>add\<close> validates nothing but truthiness (see its TODO), so what it stores
  under \<open>fn\<close> and \<open>dep\<close> is any truthy argument: a function or an array of
  names.
\<close>

datatype jsobj = Fn executor | Arr "name list"

text \<open>\<open>x.length\<close> of a function or an array.\<close>

fun obj_length :: "jsobj \<Rightarrow> nat" where
  "obj_length (Fn e) = params e"
| "obj_length (Arr xs) = length xs"

text \<open>
  The names \<open>x[0], ..., x[x.length - 1]\<close> as \<open>_readyToRunTask\<close> reads them
  and uses them as property keys: the elements of an array; for a function
  every index is \<open>undefined\<close>, the key \<open>"undefined"\<close>.
\<close>

fun dep_names :: "jsobj \<Rightarrow> name list" where
  "dep_names (Arr xs) = xs"
| "dep_names (Fn e) = replicate (params e) ''undefined''"

text \<open>
  Calling \<open>x.call(this, cb)\<close>: an array has no \<open>call\<close>, which is a TypeError
  raised inside the \<open>try\<close> of \<open>_runTask\<close>.
\<close>

fun behaviour :: "jsobj \<Rightarrow> executor" where
  "behaviour (Fn e) = e"
| "behaviour (Arr xs) = \<lparr>params = length xs, sync_calls = [], outcome = Throws TypeError\<rparr>"

subsection \<open>Task objects and the orchestrator\<close>

record task =
  fn :: jsobj
  dep :: jsobj
  name :: name
  running :: bool
  done' :: bool

type_synonym ref = nat
type_synonym notifier = nat

text \<open>
  An executor invocation is recorded with the task object as it was just
  before \<open>task.running = true\<close> and with the registry as it was then (each
  registered name with the contents of its task object).
\<close>

datatype event =
    Invoked ref task "(name \<times> task) list"
  | Registered ref
  | Notified notifier jsval

text \<open>
  \<open>this.tasks\<close> maps a name to a task object. The closures \<open>cb\<close> and the
  handlers hold the object itself, and \<open>add\<close> replaces the object under a
  name by a new one, so objects live in a store (\<open>heap\<close>) and the registry
  holds references, in insertion order (the order of \<open>for (i in this.tasks)\<close>
  for names that are not array indices). Task names are taken not to be
  names of properties that every object inherits (\<open>constructor\<close>,
  \<open>toString\<close>), for which \<open>this.tasks[name]\<close> is defined without \<open>add\<close>.
\<close>

record orchestrator =
  doneCallback :: "notifier option"
  seq :: "name list"
  tasks :: "(name \<times> ref) list"
  isRunning :: bool
  heap :: "ref \<Rightarrow> task"
  next_ref :: ref
  trace :: "event list"

definition registry :: "orchestrator \<Rightarrow> (name \<times> task) list" where
  "registry s = map (\<lambda>(n, r). (n, heap s r)) (tasks s)"

text \<open>The constructor, with \<open>opts.callback\<close> and \<open>opts.seq\<close>.\<close>

definition Orchestrator :: "notifier option \<Rightarrow> name list \<Rightarrow> orchestrator" where
  "Orchestrator callback sq =
     \<lparr>doneCallback = callback, seq = sq, tasks = [], isRunning = False,
      heap = (\<lambda>_. \<lparr>fn = Arr [], dep = Arr [], name = [], running = False, done' = False\<rparr>),
      next_ref = 0, trace = []\<rparr>"

subsection \<open>\<open>add\<close>\<close>

text \<open>
  \<open>add(name, dep, fn)\<close>: an argument is absent (\<open>None\<close>) or a truthy object;
  the name is absent or a string, and the empty string is falsy.
\<close>

definition add ::
  "name option \<Rightarrow> jsobj option \<Rightarrow> jsobj option \<Rightarrow> orchestrator \<Rightarrow> jsval + orchestrator" where
  "add nm dp f s =
     (let (f1, dp1) = (if f = None then (dp, None) else (f, dp)) in
      case (nm, f1) of
        (Some n, Some f2) \<Rightarrow>
          if n = [] then Inl (ConfigurationError ''Task requires a name and a function to execute'')
          else Inr (s\<lparr>tasks := AList.update n (next_ref s) (tasks s),
                      heap := (heap s)(next_ref s :=
                        \<lparr>fn = f2, dep = (case dp1 of None \<Rightarrow> Arr [] | Some d \<Rightarrow> d),
                         name = n, running = False, done' = False\<rparr>),
                      next_ref := Suc (next_ref s)\<rparr>)
      | _ \<Rightarrow> Inl (ConfigurationError ''Task requires a name and a function to execute''))"

subsection \<open>\<open>stop\<close>\<close>

text \<open>\<open>successfulFinish\<close> only selects a log line.\<close>

definition stop :: "jsval \<Rightarrow> bool \<Rightarrow> orchestrator \<Rightarrow> orchestrator" where
  "stop err successfulFinish s =
     (case doneCallback s of
        None \<Rightarrow> s\<lparr>isRunning := False\<rparr>
      | Some c \<Rightarrow> s\<lparr>isRunning := False, doneCallback := None,
                    trace := trace s @ [Notified c err]\<rparr>)"

definition reset :: "orchestrator \<Rightarrow> orchestrator" where
  "reset s = (stop Null False s)\<lparr>tasks := [], seq := [], isRunning := False, doneCallback := None\<rparr>"

subsection \<open>The scheduler\<close>

definition lookup :: "orchestrator \<Rightarrow> name \<Rightarrow> ref option" where
  "lookup s n = map_of (tasks s) n"

text \<open>
  \<open>_readyToRunTask\<close>: the loop over \<open>task.dep\<close> with its two \<open>break\<close>s. A
  dependency that is not registered stops the run.
\<close>

definition missing_msg :: "name \<Rightarrow> name \<Rightarrow> jsval" where
  "missing_msg t d =
     Str (''can'' @ [CHR 0x27] @ ''t run '' @ t @ '' because it depends on '' @ d
          @ '' which doesn'' @ [CHR 0x27] @ ''t exist'')"

fun depsReady :: "orchestrator \<Rightarrow> task \<Rightarrow> name list \<Rightarrow> bool \<times> orchestrator" where
  "depsReady s t [] = (True, s)"
| "depsReady s t (d # ds) =
     (case lookup s d of
        None \<Rightarrow> (False, stop (missing_msg (name t) d) False s)
      | Some r \<Rightarrow> if \<not> done' (heap s r) then (False, s) else depsReady s t ds)"

definition readyToRunTask :: "orchestrator \<Rightarrow> task \<Rightarrow> bool \<times> orchestrator" where
  "readyToRunTask s t = depsReady s t (dep_names (dep t))"

text \<open>
  \<open>allDone\<close>: \<open>task.done\<close> on a name of the sequence that is not registered
  is a TypeError.
\<close>

fun allDone_from :: "orchestrator \<Rightarrow> name list \<Rightarrow> jsval + bool" where
  "allDone_from s [] = Inr True"
| "allDone_from s (n # ns) =
     (case lookup s n of
        None \<Rightarrow> Inl TypeError
      | Some r \<Rightarrow> if \<not> done' (heap s r) then Inr False else allDone_from s ns)"

definition allDone :: "orchestrator \<Rightarrow> jsval + bool" where
  "allDone s = allDone_from s (seq s)"

definition set_running :: "ref \<Rightarrow> orchestrator \<Rightarrow> orchestrator" where
  "set_running r s = s\<lparr>heap := (heap s)(r := (heap s r)\<lparr>running := True\<rparr>)\<rparr>"

text \<open>\<open>task.running = false; task.done = true\<close>.\<close>

definition set_done :: "ref \<Rightarrow> orchestrator \<Rightarrow> orchestrator" where
  "set_done r s = s\<lparr>heap := (heap s)(r := (heap s r)\<lparr>running := False, done' := True\<rparr>)\<rparr>"

text \<open>
  What \<open>_runTask\<close> does once the call of the executor is over: \<open>thrown\<close> is
  the exception that left the \<open>try\<close> block, if any.
\<close>

definition after_call :: "ref \<Rightarrow> task \<Rightarrow> jsval option \<Rightarrow> orchestrator \<Rightarrow> orchestrator" where
  "after_call r t thrown s =
     (let s1 = (case thrown of
                  None \<Rightarrow> s
                | Some v \<Rightarrow> stop (or_else v (Str (name t @ '' threw an exception''))) False s)
      in if thrown = None \<and> outcome (behaviour (fn t)) = Returns True
         then s1\<lparr>trace := trace s1 @ [Registered r]\<rparr>
         else if obj_length (fn t) = 0 then set_done r s1
         else s1)"

text \<open>
  \<open>_runStep\<close> and \<open>_runTask\<close> call each other through \<open>cb\<close>: an executor
  that invokes \<open>cb\<close> during its call re-enters \<open>_runStep\<close> below the scan that
  started it. The first argument bounds the depth of that nesting (the number
  of \<open>_runTask\<close> frames on the stack); \<open>None\<close> is a stack that would have to
  be deeper. A result \<open>(Some e, s)\<close> is the exception \<open>e\<close> leaving the
  function in state \<open>s\<close>.

  \<open>scan\<close> is the \<open>for\<close> loop of \<open>_runStep\<close> over the names still to be
  visited, followed by the \<open>allDone\<close> test when the loop runs to its end.
  The loop reads \<open>this.seq\<close> anew in each round; nothing it calls assigns
  \<open>this.seq\<close> (lemma \<open>evolves_seq\<close> below), so the names are taken from the
  sequence as it is when the loop starts.
  \<open>calls\<close> is the executor's body: its invocations of \<open>cb\<close> in turn, up to
  the first that raises.
\<close>

fun runStep :: "nat \<Rightarrow> orchestrator \<Rightarrow> (jsval option \<times> orchestrator) option"
  and scan :: "nat \<Rightarrow> name list \<Rightarrow> orchestrator \<Rightarrow> (jsval option \<times> orchestrator) option"
  and runTask :: "nat \<Rightarrow> ref \<Rightarrow> orchestrator \<Rightarrow> orchestrator option"
  and calls :: "nat \<Rightarrow> ref \<Rightarrow> jsval list \<Rightarrow> orchestrator \<Rightarrow> (jsval option \<times> orchestrator) option"
  and cb :: "nat \<Rightarrow> ref \<Rightarrow> jsval \<Rightarrow> orchestrator \<Rightarrow> (jsval option \<times> orchestrator) option"
where
  "runStep k s = (if \<not> isRunning s then Some (None, s) else scan k (seq s) s)"
| "scan k [] s =
     (case allDone s of
        Inl e \<Rightarrow> Some (Some e, s)
      | Inr b \<Rightarrow> Some (None, if b then stop Null True s else s))"
| "scan k (n # ns) s =
     (case lookup s n of
        None \<Rightarrow> Some (Some TypeError, s)
      | Some r \<Rightarrow>
         (case (if \<not> done' (heap s r) \<and> \<not> running (heap s r)
                then (case readyToRunTask s (heap s r) of
                        (True, s1) \<Rightarrow> runTask k r s1
                      | (False, s1) \<Rightarrow> Some s1)
                else Some s) of
            None \<Rightarrow> None
          | Some s2 \<Rightarrow> if \<not> isRunning s2 then Some (None, s2) else scan k ns s2))"
| "runTask 0 r s = None"
| "runTask (Suc k) r s =
     (let t = heap s r;
          s1 = (set_running r s)\<lparr>trace := trace s @ [Invoked r t (registry s)]\<rparr>
      in case calls k r (sync_calls (behaviour (fn t))) s1 of
           None \<Rightarrow> None
         | Some (Some e, s2) \<Rightarrow> Some (after_call r t (Some e) s2)
         | Some (None, s2) \<Rightarrow>
             Some (after_call r t
                     (case outcome (behaviour (fn t)) of Throws v \<Rightarrow> Some v | Returns _ \<Rightarrow> None) s2))"
| "calls k r [] s = Some (None, s)"
| "calls k r (v # vs) s =
     (case cb k r v s of
        None \<Rightarrow> None
      | Some (Some e, s1) \<Rightarrow> Some (Some e, s1)
      | Some (None, s1) \<Rightarrow> calls k r vs s1)"
| "cb k r err s =
     (if truthy err then Some (None, stop err False (set_done r s))
      else runStep k (set_done r s))"

text \<open>
  The handlers that \<open>_runTask\<close> passes to \<open>p.done\<close>, invoked by the handle
  after \<open>_runTask\<close> has returned. \<open>cb\<close> above is also what a later
  invocation of the completion callback runs.
\<close>

definition onResolved :: "nat \<Rightarrow> ref \<Rightarrow> orchestrator \<Rightarrow> (jsval option \<times> orchestrator) option" where
  "onResolved k r s = runStep k (set_done r s)"

definition onRejected :: "ref \<Rightarrow> jsval \<Rightarrow> orchestrator \<Rightarrow> orchestrator" where
  "onRejected r err s =
     stop (or_else err (Str (name (heap s r) @ '' promise rejected''))) False (set_done r s)"

subsection \<open>The sequencer\<close>

text \<open>
  Modelled from the spec: \<open>lib/sequence.js\<close> is not among the sources; only
  its call \<open>this.sequence(this.tasks, names, seq, [])\<close> is. The definition
  follows section 4.2 of the specification: depth-first expansion of each
  requested name; a name is expanded by first visiting its dependencies and
  then appending it to the output if it is not there yet; \<open>nest\<close> holds the
  names being expanded on the current path, and meeting one of them again
  fails with CircularDependencyError (naming the path); a name that the
  registry does not hold fails with DependencyError (naming it and the task
  that refers to it, if any). Failing is an exception. The arguments are
  those of the call: registry, names, the output so far, the path.
\<close>

function sequence ::
  "(name \<times> task) list \<Rightarrow> name list \<Rightarrow> name list \<Rightarrow> name list \<Rightarrow> jsval + name list" where
  "sequence reg [] results nest = Inr results"
| "sequence reg (n # ns) results nest =
     (if n \<in> set nest then Inl (CircularDependencyError (nest @ [n]))
      else case map_of reg n of
             None \<Rightarrow> Inl (DependencyError n (if nest = [] then None else Some (last nest)))
           | Some t \<Rightarrow>
              (case sequence reg (dep_names (dep t)) results (nest @ [n]) of
                 Inl e \<Rightarrow> Inl e
               | Inr res \<Rightarrow> sequence reg ns (if n \<in> set res then res else res @ [n]) nest))"
  by pat_completeness auto
termination
proof (relation "measures [\<lambda>(reg, ns, res, nest). card (fst ` set reg - set nest),
                           \<lambda>(reg, ns, res, nest). length ns]", goal_cases)
  case 1
  show ?case by simp
next
  case (2 reg n ns results nest t)
  have "n \<in> fst ` set reg" using 2(2) by (metis map_of_SomeD fst_conv image_eqI)
  then have "fst ` set reg - set (nest @ [n]) \<subset> fst ` set reg - set nest"
    using 2(1) by auto
  then have "card (fst ` set reg - set (nest @ [n])) < card (fst ` set reg - set nest)"
    by (intro psubset_card_mono) auto
  then show ?case by simp
next
  case 3
  then show ?case by simp
qed

subsection \<open>\<open>run\<close>\<close>

text \<open>
  \<open>run(...names, notifier?)\<close>: \<open>notifier\<close> is the last argument when it is
  a function. Nothing in \<open>run\<close> catches what the sequencer throws. The first
  argument is the depth bound of \<open>runStep\<close>.
\<close>

definition run ::
  "nat \<Rightarrow> name list \<Rightarrow> notifier option \<Rightarrow> orchestrator \<Rightarrow> (jsval option \<times> orchestrator) option" where
  "run k names notifier s =
     (let s1 = (case notifier of None \<Rightarrow> s | Some c \<Rightarrow> s\<lparr>doneCallback := Some c\<rparr>);
          names1 = (if isRunning s1 then names @ seq s1 else names);
          names2 = (if names1 = [] then map (\<lambda>(i, r). name (heap s1 r)) (tasks s1) else names1)
      in case sequence (registry s1) names2 [] [] of
           Inl e \<Rightarrow> Some (Some e, s1)
         | Inr sq \<Rightarrow> runStep k (s1\<lparr>seq := sq, isRunning := True\<rparr>))"

subsection \<open>Notions used to state the properties\<close>

text \<open>
  A task object is unstarted when it is neither done nor running: the first
  two conjuncts of the test in \<open>_runStep\<close>. Its dependencies are done when
  every name in \<open>task.dep\<close> is registered and its task object is done: what
  \<open>_readyToRunTask\<close> returns \<open>true\<close> for.
\<close>

definition unstarted :: "orchestrator \<Rightarrow> ref \<Rightarrow> bool" where
  "unstarted s r \<longleftrightarrow> \<not> done' (heap s r) \<and> \<not> running (heap s r)"

definition deps_done :: "orchestrator \<Rightarrow> ref \<Rightarrow> bool" where
  "deps_done s r \<longleftrightarrow>
     (\<forall>d \<in> set (dep_names (dep (heap s r))).
        case lookup s d of None \<Rightarrow> False | Some rd \<Rightarrow> done' (heap s rd))"

text \<open>The state in which \<open>_runTask\<close> calls the executor of the object \<open>r\<close>.\<close>

definition start :: "ref \<Rightarrow> orchestrator \<Rightarrow> orchestrator" where
  "start r s = (set_running r s)\<lparr>trace := trace s @ [Invoked r (heap s r) (registry s)]\<rparr>"

text \<open>What a call appended to the trace.\<close>

definition new_events :: "orchestrator \<Rightarrow> orchestrator \<Rightarrow> event list" where
  "new_events s s' = drop (length (trace s)) (trace s')"

fun invoked :: "event \<Rightarrow> bool" where
  "invoked (Invoked r t reg) = True"
| "invoked _ = False"

fun notified :: "event \<Rightarrow> bool" where
  "notified (Notified c v) = True"
| "notified _ = False"

text \<open>The task objects whose executors were invoked, in order.\<close>

fun started_refs :: "event list \<Rightarrow> ref list" where
  "started_refs [] = []"
| "started_refs (Invoked r t reg # es) = r # started_refs es"
| "started_refs (_ # es) = started_refs es"

text \<open>
  An invocation is in order when, in the state recorded with it, the task
  was neither done nor running and each of its dependencies was registered
  and done.
\<close>

fun in_order :: "event \<Rightarrow> bool" where
  "in_order (Invoked r t reg) =
     (\<not> done' t \<and> \<not> running t
      \<and> (\<forall>d \<in> set (dep_names (dep t)).
            case map_of reg d of None \<Rightarrow> False | Some td \<Rightarrow> done' td))"
| "in_order _ = True"

text \<open>No executor is invoked after the notifier has been called.\<close>

fun quiet :: "event list \<Rightarrow> bool" where
  "quiet [] = True"
| "quiet (e # es) = ((notified e \<longrightarrow> \<not> list_ex invoked es) \<and> quiet es)"

text \<open>
  What a scheduling pass leaves alone: the sequence, the registry, the
  static fields of every task object, every object that is done and not
  running; what it changes in one direction only: done stays done, started
  stays started, a stopped run stays stopped, a cleared notifier stays
  cleared.
\<close>

definition frame :: "orchestrator \<Rightarrow> orchestrator \<Rightarrow> bool" where
  "frame s s' \<longleftrightarrow>
     seq s' = seq s \<and> tasks s' = tasks s \<and> next_ref s' = next_ref s
     \<and> (\<forall>r. fn (heap s' r) = fn (heap s r) \<and> dep (heap s' r) = dep (heap s r)
            \<and> name (heap s' r) = name (heap s r)
            \<and> (done' (heap s r) \<longrightarrow> done' (heap s' r))
            \<and> (\<not> unstarted s r \<longrightarrow> \<not> unstarted s' r)
            \<and> (done' (heap s r) \<and> \<not> running (heap s r) \<longrightarrow> heap s' r = heap s r))
     \<and> (isRunning s' \<longrightarrow> isRunning s)
     \<and> (doneCallback s' = None \<or> doneCallback s' = doneCallback s)"

text \<open>The discipline of the events of a pass.\<close>

definition orderly :: "orchestrator \<Rightarrow> orchestrator \<Rightarrow> bool" where
  "orderly s s' \<longleftrightarrow>
     trace s' = trace s @ new_events s s'
     \<and> list_all in_order (new_events s s')
     \<and> quiet (new_events s s')
     \<and> (\<not> isRunning s \<longrightarrow> \<not> list_ex invoked (new_events s s'))
     \<and> (isRunning s' \<or> doneCallback s' \<noteq> None \<longrightarrow> \<not> list_ex notified (new_events s s'))
     \<and> length (filter notified (new_events s s')) \<le> (if doneCallback s = None then 0 else 1)
     \<and> (\<forall>r. unstarted s r \<and> \<not> unstarted s' r \<longrightarrow> r \<in> set (started_refs (new_events s s')))"

text \<open>
  The task objects that a pass over the sequence can still start. Their
  number bounds the depth to which \<open>_runTask\<close> frames nest.
\<close>

definition pending :: "orchestrator \<Rightarrow> ref list" where
  "pending s = remdups (filter (unstarted s) (List.map_filter (lookup s) (seq s)))"

text \<open>Every name of the sequence is registered.\<close>

definition seq_registered :: "orchestrator \<Rightarrow> bool" where
  "seq_registered s \<longleftrightarrow> (\<forall>n \<in> set (seq s). lookup s n \<noteq> None)"

text \<open>\<open>x\<close> comes before the first \<open>y\<close>, if there is a \<open>y\<close>.\<close>

definition before :: "'a \<Rightarrow> 'a \<Rightarrow> 'a list \<Rightarrow> bool" where
  "before x y zs \<longleftrightarrow> (y \<in> set zs \<longrightarrow> x \<in> set (takeWhile (\<lambda>z. z \<noteq> y) zs))"

text \<open>Both together: what holds from the state before a pass to the state after it.\<close>

definition evolves :: "orchestrator \<Rightarrow> orchestrator \<Rightarrow> bool" where
  "evolves s s' \<longleftrightarrow> frame s s' \<and> orderly s s'"

text \<open>
  The body of the loop of \<open>_runStep\<close> for the task object \<open>r\<close>: the test
  and, when it holds, \<open>_runTask\<close>.
\<close>

definition visit :: "nat \<Rightarrow> ref \<Rightarrow> orchestrator \<Rightarrow> orchestrator option" where
  "visit k r s =
     (if \<not> done' (heap s r) \<and> \<not> running (heap s r)
      then (case readyToRunTask s (heap s r) of
              (True, s1) \<Rightarrow> runTask k r s1
            | (False, s1) \<Rightarrow> Some s1)
      else Some s)"

text \<open>
  In the list of names \<open>ns\<close>, a name of the task object \<open>ra\<close> stands before
  every name of the task object \<open>rb\<close>.
\<close>

definition ahead :: "ref \<Rightarrow> ref \<Rightarrow> orchestrator \<Rightarrow> name list \<Rightarrow> bool" where
  "ahead ra rb s ns \<longleftrightarrow>
     (\<exists>a \<in> set (takeWhile (\<lambda>n. lookup s n \<noteq> Some rb) ns). lookup s a = Some ra)"

text \<open>
  From \<open>s\<close> to \<open>s'\<close>, \<open>ra\<close> was started before \<open>rb\<close>, unless \<open>ra\<close> had been
  started before \<open>s\<close>.
\<close>

definition earlier :: "ref \<Rightarrow> ref \<Rightarrow> orchestrator \<Rightarrow> orchestrator \<Rightarrow> bool" where
  "earlier ra rb s s' \<longleftrightarrow> \<not> unstarted s ra \<or> before ra rb (started_refs (new_events s s'))"

text \<open>
  The dependency graph of a registry: an edge from each registered name to
  each name in its task's \<open>dep\<close>. In a list of names, dependencies come first
  when every dependency of an element stands at an earlier position.
\<close>

definition dep_rel :: "(name \<times> task) list \<Rightarrow> (name \<times> name) set" where
  "dep_rel reg = {(n, d). \<exists>t. map_of reg n = Some t \<and> d \<in> set (dep_names (dep t))}"

definition deps_first :: "(name \<times> task) list \<Rightarrow> name list \<Rightarrow> bool" where
  "deps_first reg xs \<longleftrightarrow>
     (\<forall>i < length xs. \<forall>d. (xs ! i, d) \<in> dep_rel reg \<longrightarrow> d \<in> set (take i xs))"


text \<open>
  The three steps of \<open>run\<close> before the first scheduling pass: the notifier
  it registers, the names it hands to the sequencer, and the state in which it
  calls \<open>_runStep\<close> once the sequencer has returned \<open>sq\<close>.
\<close>

definition with_notifier :: "notifier option \<Rightarrow> orchestrator \<Rightarrow> orchestrator" where
  "with_notifier nf s = (case nf of None \<Rightarrow> s | Some c \<Rightarrow> s\<lparr>doneCallback := Some c\<rparr>)"

definition requested :: "orchestrator \<Rightarrow> name list \<Rightarrow> name list" where
  "requested s names =
     (let names1 = (if isRunning s then names @ seq s else names)
      in if names1 = [] then map (\<lambda>(i, r). name (heap s r)) (tasks s) else names1)"

definition entry :: "name list \<Rightarrow> notifier option \<Rightarrow> orchestrator \<Rightarrow> orchestrator" where
  "entry sq nf s = (with_notifier nf s)\<lparr>seq := sq, isRunning := True\<rparr>"

subsection \<open>Scenarios\<close>

text \<open>
  Executors: one that declares no parameter and returns; one that declares
  the callback and never calls it during the call; one that declares no
  parameter and throws; one that declares the callback and returns a handle;
  one that calls the callback with an error.
\<close>

definition sync_fn :: jsobj where
  "sync_fn = Fn \<lparr>params = 0, sync_calls = [], outcome = Returns False\<rparr>"

definition waiting_fn :: jsobj where
  "waiting_fn = Fn \<lparr>params = 1, sync_calls = [], outcome = Returns False\<rparr>"

definition throwing_fn :: jsobj where
  "throwing_fn = Fn \<lparr>params = 0, sync_calls = [], outcome = Throws (Str ''boom'')\<rparr>"

definition handle_fn :: jsobj where
  "handle_fn = Fn \<lparr>params = 1, sync_calls = [], outcome = Returns True\<rparr>"

definition failing_fn :: jsobj where
  "failing_fn = Fn \<lparr>params = 1, sync_calls = [Str ''boom''], outcome = Returns False\<rparr>"

text \<open>\<open>a\<close>, and \<open>b\<close> that depends on \<open>a\<close>, both synchronous; and the same after \<open>run('b', notifier)\<close>.\<close>

definition two_tasks :: orchestrator where
  "two_tasks =
     projr (add (Some ''b'') (Some (Arr [''a''])) (Some sync_fn)
       (projr (add (Some ''a'') (Some sync_fn) None (Orchestrator None []))))"

definition two_done :: orchestrator where
  "two_done = snd (the (run 2 [''b''] (Some 7) two_tasks))"

text \<open>Two independent synchronous tasks, at the start of a pass over \<open>[x, y]\<close>.\<close>

definition independent_tasks :: orchestrator where
  "independent_tasks =
     projr (add (Some ''y'') (Some sync_fn) None
       (projr (add (Some ''x'') (Some sync_fn) None (Orchestrator None []))))"

definition xy_entered :: orchestrator where
  "xy_entered = entry [''x'', ''y''] None independent_tasks"

text \<open>\<open>a\<close> waits for its callback, \<open>b\<close> is synchronous; after \<open>run('a')\<close> the run is active.\<close>

definition one_waiting :: orchestrator where
  "one_waiting =
     projr (add (Some ''b'') (Some sync_fn) None
       (projr (add (Some ''a'') (Some waiting_fn) None (Orchestrator None []))))"

definition a_waiting :: orchestrator where
  "a_waiting = snd (the (run 1 [''a''] None one_waiting))"

text \<open>A task that throws, at the start of a pass, with a notifier registered.\<close>

definition one_throwing :: orchestrator where
  "one_throwing =
     entry [''t''] (Some 7) (projr (add (Some ''t'') (Some throwing_fn) None (Orchestrator None [])))"

text \<open>
  \<open>a\<close> declares the callback and returns a handle, \<open>p\<close> waits for its
  callback; \<open>run('a', 'p', notifier)\<close>, then the handle of \<open>a\<close> resolves.
\<close>

definition handle_and_waiting :: orchestrator where
  "handle_and_waiting =
     projr (add (Some ''p'') (Some waiting_fn) None
       (projr (add (Some ''a'') (Some handle_fn) None (Orchestrator None []))))"

definition handle_resolved :: orchestrator where
  "handle_resolved =
     snd (the (onResolved 2 0 (snd (the (run 2 [''a'', ''p''] (Some 7) handle_and_waiting)))))"

text \<open>\<open>a\<close> depends on \<open>b\<close> and \<open>b\<close> on \<open>a\<close>.\<close>

definition cyclic_tasks :: orchestrator where
  "cyclic_tasks =
     projr (add (Some ''b'') (Some (Arr [''a''])) (Some sync_fn)
       (projr (add (Some ''a'') (Some (Arr [''b''])) (Some sync_fn) (Orchestrator None []))))"

text \<open>
  \<open>a\<close> calls its callback with an error, \<open>b\<close> is independent and
  synchronous; at the start of a pass over \<open>[a, b]\<close>, with a notifier.
\<close>

definition failing_first :: orchestrator where
  "failing_first =
     entry [''a'', ''b''] (Some 7)
       (projr (add (Some ''b'') (Some sync_fn) None
         (projr (add (Some ''a'') (Some failing_fn) None (Orchestrator None [])))))"

declare runStep.simps [simp del] scan.simps [simp del] runTask.simps [simp del]
  calls.simps [simp del] cb.simps [simp del] sequence.simps [simp del]

section \<open>Properties\<close>

subsection \<open>The readiness test\<close>

lemma depsReady_True:
  "depsReady s t ds = (True, s1) \<Longrightarrow>
     s1 = s \<and> (\<forall>d \<in> set ds. case lookup s d of None \<Rightarrow> False | Some rd \<Rightarrow> done' (heap s rd))"
  by (induction ds) (auto split: option.splits if_splits)

lemma depsReady_False:
  "depsReady s t ds = (False, s1) \<Longrightarrow> s1 = s \<or> (\<exists>m. s1 = stop m False s)"
  by (induction ds) (auto split: option.splits if_splits)

lemma depsReady_done:
  "\<forall>d \<in> set ds. case lookup s d of None \<Rightarrow> False | Some rd \<Rightarrow> done' (heap s rd)
   \<Longrightarrow> depsReady s t ds = (True, s)"
  by (induction ds) (auto split: option.splits)

lemma readyToRunTask_True:
  "readyToRunTask s (heap s r) = (True, s1) \<Longrightarrow> s1 = s \<and> deps_done s r"
  unfolding readyToRunTask_def deps_done_def by (rule depsReady_True)

lemma readyToRunTask_False:
  "readyToRunTask s t = (False, s1) \<Longrightarrow> s1 = s \<or> (\<exists>m. s1 = stop m False s)"
  unfolding readyToRunTask_def by (rule depsReady_False)

lemma readyToRunTask_deps_done:
  "deps_done s r \<Longrightarrow> readyToRunTask s (heap s r) = (True, s)"
  unfolding readyToRunTask_def deps_done_def by (rule depsReady_done)

lemma runTask_Suc:
  "runTask (Suc k) r s =
     (case calls k r (sync_calls (behaviour (fn (heap s r)))) (start r s) of
        None \<Rightarrow> None
      | Some (Some e, s2) \<Rightarrow> Some (after_call r (heap s r) (Some e) s2)
      | Some (None, s2) \<Rightarrow>
          Some (after_call r (heap s r)
                  (case outcome (behaviour (fn (heap s r))) of Throws v \<Rightarrow> Some v | Returns _ \<Rightarrow> None) s2))"
  by (simp add: runTask.simps start_def Let_def)

lemma after_call_None:
  "after_call r t None s =
     (if outcome (behaviour (fn t)) = Returns True then s\<lparr>trace := trace s @ [Registered r]\<rparr>
      else if obj_length (fn t) = 0 then set_done r s else s)"
  by (simp add: after_call_def)

lemma after_call_Some:
  "after_call r t (Some v) s =
     (if obj_length (fn t) = 0
      then set_done r (stop (or_else v (Str (name t @ '' threw an exception''))) False s)
      else stop (or_else v (Str (name t @ '' threw an exception''))) False s)"
  by (simp add: after_call_def)

subsection \<open>A rule for everything a scheduling pass does\<close>

text \<open>
  A relation between states that is reflexive and transitive and holds across
  each elementary step holds across \<open>runStep\<close>, \<open>scan\<close>, \<open>calls\<close> and
  \<open>cb\<close>, once it holds across each \<open>runTask\<close> of the same depth.
\<close>

lemma level_rule:
  fixes R :: "orchestrator \<Rightarrow> orchestrator \<Rightarrow> bool"
  assumes refl: "\<And>s. R s s"
    and trans: "\<And>a b c. R a b \<Longrightarrow> R b c \<Longrightarrow> R a c"
    and stp: "\<And>e b s. R s (stop e b s)"
    and fin: "\<And>r s. \<not> unstarted s r \<Longrightarrow> R s (set_done r s)"
    and keep: "\<And>r s s'. R s s' \<Longrightarrow> \<not> unstarted s r \<Longrightarrow> \<not> unstarted s' r"
    and T: "\<And>r s s'. runTask k r s = Some s' \<Longrightarrow> unstarted s r \<Longrightarrow> deps_done s r
              \<Longrightarrow> isRunning s \<Longrightarrow> R s s'"
  shows scan_R: "\<And>s x s'. scan k ns s = Some (x, s') \<Longrightarrow> isRunning s \<Longrightarrow> R s s'"
    and runStep_R: "\<And>s x s'. runStep k s = Some (x, s') \<Longrightarrow> R s s'"
    and cb_R: "\<And>s x s'. cb k r v s = Some (x, s') \<Longrightarrow> \<not> unstarted s r \<Longrightarrow> R s s'"
    and calls_R: "\<And>s x s'. calls k r vs s = Some (x, s') \<Longrightarrow> \<not> unstarted s r \<Longrightarrow> R s s'"
proof -
  have scan: "scan k ns s = Some (x, s') \<Longrightarrow> isRunning s \<Longrightarrow> R s s'" for ns s x s'
  proof (induction ns arbitrary: s)
    case Nil
    then show ?case by (auto simp: scan.simps split: sum.splits if_splits intro: refl stp)
  next
    case (Cons n ns)
    show ?case
    proof (cases "lookup s n")
      case None
      with Cons.prems show ?thesis by (auto simp: scan.simps intro: refl)
    next
      case (Some r)
      define body where "body = (if \<not> done' (heap s r) \<and> \<not> running (heap s r)
                then (case readyToRunTask s (heap s r) of
                        (True, s1) \<Rightarrow> runTask k r s1
                      | (False, s1) \<Rightarrow> Some s1)
                else Some s)"
      from Cons.prems(1) Some obtain s2 where b: "body = Some s2"
        and rest: "(if \<not> isRunning s2 then Some (None, s2) else scan k ns s2) = Some (x, s')"
        by (auto simp: scan.simps body_def [symmetric] split: option.splits)
      have "R s s2"
      proof (cases "unstarted s r")
        case False
        then show ?thesis using b refl by (auto simp: body_def unstarted_def)
      next
        case u: True
        obtain rdy s1 where rd: "readyToRunTask s (heap s r) = (rdy, s1)" by fastforce
        show ?thesis
        proof (cases rdy)
          case True
          with rd have "s1 = s" "deps_done s r" by (auto dest: readyToRunTask_True)
          moreover have "runTask k r s1 = Some s2" using b rd True u
            by (simp add: body_def unstarted_def)
          ultimately show ?thesis using T u Cons.prems(2) by simp
        next
          case False
          with rd have "s1 = s \<or> (\<exists>m. s1 = stop m False s)" by (auto dest: readyToRunTask_False)
          moreover have "s1 = s2" using b rd False u by (simp add: body_def unstarted_def)
          ultimately show ?thesis using refl stp by auto
        qed
      qed
      moreover have "R s2 s'"
        using rest Cons.IH [of s2] refl by (auto split: if_splits)
      ultimately show ?thesis using trans by blast
    qed
  qed
  show "\<And>s x s'. scan k ns s = Some (x, s') \<Longrightarrow> isRunning s \<Longrightarrow> R s s'" by (rule scan)
  show rs: "\<And>s x s'. runStep k s = Some (x, s') \<Longrightarrow> R s s'"
    using scan refl by (auto simp: runStep.simps split: if_splits)
  show cbr: "cb k r v s = Some (x, s') \<Longrightarrow> \<not> unstarted s r \<Longrightarrow> R s s'" for r v s x s'
  proof (cases "truthy v")
    case True
    assume "cb k r v s = Some (x, s')" and "\<not> unstarted s r"
    with True have "s' = stop v False (set_done r s)" "R s (set_done r s)"
      by (simp_all add: cb.simps fin)
    then show ?thesis using stp trans by blast
  next
    case False
    assume "cb k r v s = Some (x, s')" and "\<not> unstarted s r"
    with False have "runStep k (set_done r s) = Some (x, s')" "R s (set_done r s)"
      by (simp_all add: cb.simps fin)
    then show ?thesis using rs trans by blast
  qed
  show "\<And>s x s'. calls k r vs s = Some (x, s') \<Longrightarrow> \<not> unstarted s r \<Longrightarrow> R s s'"
  proof (induction vs)
    case Nil
    then show ?case using refl by (auto simp: calls.simps)
  next
    case (Cons v vs)
    from Cons.prems obtain y s1 where c: "cb k r v s = Some (y, s1)"
      by (auto simp: calls.simps split: option.splits)
    then have 1: "R s s1" using cbr Cons.prems(2) by blast
    then have "\<not> unstarted s1 r" using keep Cons.prems(2) by blast
    then have "R s1 s'"
      using Cons.prems(1) c Cons.IH [of s1] refl by (auto simp: calls.simps split: option.splits)
    with 1 show ?case using trans by blast
  qed
qed

lemma sched_rule:
  fixes R :: "orchestrator \<Rightarrow> orchestrator \<Rightarrow> bool"
  assumes refl: "\<And>s. R s s"
    and trans: "\<And>a b c. R a b \<Longrightarrow> R b c \<Longrightarrow> R a c"
    and stp: "\<And>e b s. R s (stop e b s)"
    and fin: "\<And>r s. \<not> unstarted s r \<Longrightarrow> R s (set_done r s)"
    and keep: "\<And>r s s'. R s s' \<Longrightarrow> \<not> unstarted s r \<Longrightarrow> \<not> unstarted s' r"
    and go: "\<And>r s. unstarted s r \<Longrightarrow> deps_done s r \<Longrightarrow> isRunning s \<Longrightarrow> R s (start r s)"
    and reg: "\<And>r s. R s (s\<lparr>trace := trace s @ [Registered r]\<rparr>)"
  shows runTask_R: "runTask k r s = Some s' \<Longrightarrow> unstarted s r \<Longrightarrow> deps_done s r
              \<Longrightarrow> isRunning s \<Longrightarrow> R s s'"
proof (induction k arbitrary: r s s')
  case 0
  then show ?case by (simp add: runTask.simps)
next
  case (Suc k)
  note T = Suc.IH
  let ?t = "heap s r"
  have u1: "\<not> unstarted (start r s) r" by (simp add: start_def set_running_def unstarted_def)
  have R1: "R s (start r s)" using go Suc.prems by blast
  obtain y s2 where c: "calls k r (sync_calls (behaviour (fn ?t))) (start r s) = Some (y, s2)"
    using Suc.prems(1) by (cases "calls k r (sync_calls (behaviour (fn ?t))) (start r s)")
      (auto simp: runTask_Suc)
  obtain thrown where s': "s' = after_call r ?t thrown s2"
    using Suc.prems(1) c by (cases y) (auto simp: runTask_Suc)
  have R2: "R (start r s) s2"
  proof (rule calls_R [where R = R, OF _ _ _ _ _ _ c u1])
    show "\<And>s. R s s" by (rule refl)
    show "\<And>a b c. R a b \<Longrightarrow> R b c \<Longrightarrow> R a c" by (rule trans)
    show "\<And>e b s. R s (stop e b s)" by (rule stp)
    show "\<And>r s. \<not> unstarted s r \<Longrightarrow> R s (set_done r s)" by (rule fin)
    show "\<And>r s s'. R s s' \<Longrightarrow> \<not> unstarted s r \<Longrightarrow> \<not> unstarted s' r" by (rule keep)
    show "\<And>r s s'. runTask k r s = Some s' \<Longrightarrow> unstarted s r \<Longrightarrow> deps_done s r
              \<Longrightarrow> isRunning s \<Longrightarrow> R s s'" by (rule T)
  qed
  then have u2: "\<not> unstarted s2 r" using keep u1 by blast
  have "R s2 s'"
  proof (cases thrown)
    case None
    have "R s2 (s2\<lparr>trace := trace s2 @ [Registered r]\<rparr>)" by (rule reg)
    moreover have "R s2 (set_done r s2)" using fin u2 by blast
    moreover have "R s2 s2" by (rule refl)
    ultimately show ?thesis unfolding s' None after_call_None by presburger
  next
    case (Some v)
    let ?a = "stop (or_else v (Str (name ?t @ '' threw an exception''))) False s2"
    have a: "R s2 ?a" by (rule stp)
    then have "\<not> unstarted ?a r" using keep u2 by blast
    then have "R ?a (set_done r ?a)" using fin by blast
    with a have "R s2 (set_done r ?a)" using trans by blast
    with a show ?thesis unfolding s' Some after_call_Some by presburger
  qed
  with R1 R2 show ?case using trans by blast
qed

subsection \<open>Event lists\<close>

lemma started_refs_append [simp]: "started_refs (xs @ ys) = started_refs xs @ started_refs ys"
  by (induction xs rule: started_refs.induct) simp_all

lemma started_refs_invoked: "\<not> list_ex invoked xs \<Longrightarrow> started_refs xs = []"
  by (induction xs rule: started_refs.induct) simp_all

lemma quiet_append [simp]:
  "quiet (xs @ ys) \<longleftrightarrow> quiet xs \<and> quiet ys \<and> (list_ex notified xs \<longrightarrow> \<not> list_ex invoked ys)"
  by (induction xs) auto

lemma filter_notified_empty: "\<not> list_ex notified xs \<Longrightarrow> filter notified xs = []"
  by (induction xs) auto

lemma list_ex_notified_filter: "list_ex notified xs \<longleftrightarrow> filter notified xs \<noteq> []"
  by (induction xs) auto

lemma map_of_registry: "map_of (registry s) d = map_option (heap s) (lookup s d)"
proof -
  have "map_of (map (\<lambda>(n, r). (n, h r)) ts) d = map_option h (map_of ts d)" for h :: "ref \<Rightarrow> task" and ts
    by (induction ts) auto
  then show ?thesis by (simp add: registry_def lookup_def)
qed

subsection \<open>The frame of a pass\<close>

lemma frame_refl: "frame s s"
  by (simp add: frame_def)

lemma frame_trans: "frame a b \<Longrightarrow> frame b c \<Longrightarrow> frame a c"
  unfolding frame_def unstarted_def by (intro conjI allI; metis)

lemma frame_stop: "frame s (stop e b s)"
  by (simp add: frame_def stop_def unstarted_def split: option.splits)

lemma frame_set_done: "frame s (set_done r s)"
  by (simp add: frame_def set_done_def unstarted_def)

lemma frame_start: "unstarted s r \<Longrightarrow> frame s (start r s)"
  by (auto simp: frame_def start_def set_running_def unstarted_def)

lemma frame_reg: "frame s (s\<lparr>trace := trace s @ [Registered r]\<rparr>)"
  by (simp add: frame_def unstarted_def)

lemma frame_lookup: "frame s s' \<Longrightarrow> lookup s' = lookup s"
  by (auto simp: frame_def lookup_def)

lemma frame_deps_done: "frame s s' \<Longrightarrow> deps_done s r \<Longrightarrow> deps_done s' r"
  unfolding deps_done_def
  by (auto simp: frame_lookup split: option.splits) (auto simp: frame_def)

subsection \<open>The events of a pass\<close>

lemma orderly_iff:
  "orderly s s' \<longleftrightarrow>
     (\<exists>evs. trace s' = trace s @ evs
        \<and> list_all in_order evs
        \<and> quiet evs
        \<and> (\<not> isRunning s \<longrightarrow> \<not> list_ex invoked evs)
        \<and> (isRunning s' \<or> doneCallback s' \<noteq> None \<longrightarrow> \<not> list_ex notified evs)
        \<and> length (filter notified evs) \<le> (if doneCallback s = None then 0 else 1)
        \<and> (\<forall>r. unstarted s r \<and> \<not> unstarted s' r \<longrightarrow> r \<in> set (started_refs evs)))"
  by (auto simp: orderly_def new_events_def)

lemma orderly_new_events: "orderly s s' \<Longrightarrow> trace s' = trace s @ new_events s s'"
  by (simp add: orderly_def)



lemma evolves_refl: "evolves s s"
  by (simp add: evolves_def frame_refl orderly_iff)

lemma evolves_trans:
  assumes "evolves a b" and "evolves b c"
  shows "evolves a c"
proof -
  from assms have f: "frame a b" "frame b c" and fac: "frame a c"
    by (auto simp: evolves_def intro: frame_trans)
  from assms(1) obtain e1 where e1: "trace b = trace a @ e1" "list_all in_order e1" "quiet e1"
    "\<not> isRunning a \<longrightarrow> \<not> list_ex invoked e1"
    "isRunning b \<or> doneCallback b \<noteq> None \<longrightarrow> \<not> list_ex notified e1"
    "length (filter notified e1) \<le> (if doneCallback a = None then 0 else 1)"
    "\<forall>r. unstarted a r \<and> \<not> unstarted b r \<longrightarrow> r \<in> set (started_refs e1)"
    unfolding evolves_def orderly_iff by blast
  from assms(2) obtain e2 where e2: "trace c = trace b @ e2" "list_all in_order e2" "quiet e2"
    "\<not> isRunning b \<longrightarrow> \<not> list_ex invoked e2"
    "isRunning c \<or> doneCallback c \<noteq> None \<longrightarrow> \<not> list_ex notified e2"
    "length (filter notified e2) \<le> (if doneCallback b = None then 0 else 1)"
    "\<forall>r. unstarted b r \<and> \<not> unstarted c r \<longrightarrow> r \<in> set (started_refs e2)"
    unfolding evolves_def orderly_iff by blast
  have rb: "isRunning b \<longrightarrow> isRunning a" "isRunning c \<longrightarrow> isRunning b"
    and db: "doneCallback b = None \<or> doneCallback b = doneCallback a"
    and dc: "doneCallback c = None \<or> doneCallback c = doneCallback b"
    using f by (auto simp: frame_def)
  have 1: "trace c = trace a @ (e1 @ e2)" using e1(1) e2(1) by simp
  have 2: "list_all in_order (e1 @ e2)" using e1(2) e2(2) by simp
  have 3: "quiet (e1 @ e2)" using e1(3,5) e2(3,4) by auto
  have 4: "\<not> isRunning a \<longrightarrow> \<not> list_ex invoked (e1 @ e2)" using e1(4) e2(4) rb by auto
  have 5: "isRunning c \<or> doneCallback c \<noteq> None \<longrightarrow> \<not> list_ex notified (e1 @ e2)"
    using e1(5) e2(5) rb dc by auto
  have 6: "length (filter notified (e1 @ e2)) \<le> (if doneCallback a = None then 0 else 1)"
  proof (cases "doneCallback b = None")
    case True
    then have "filter notified e2 = []" using e2(6) by simp
    then show ?thesis using e1(6) by simp
  next
    case False
    then have "filter notified e1 = []" using e1(5) by (simp add: filter_notified_empty)
    moreover have "doneCallback a \<noteq> None" using False db by auto
    ultimately show ?thesis using e2(6) False by auto
  qed
  have 7: "\<forall>r. unstarted a r \<and> \<not> unstarted c r \<longrightarrow> r \<in> set (started_refs (e1 @ e2))"
    using e1(7) e2(7) by auto
  have "orderly a c" unfolding orderly_iff using 1 2 3 4 5 6 7 by blast
  with fac show ?thesis by (simp add: evolves_def)
qed

lemma evolves_stop: "evolves s (stop e b s)"
  unfolding evolves_def orderly_iff
  by (cases "doneCallback s") (auto simp: frame_stop, auto simp: stop_def unstarted_def)

lemma evolves_set_done: "\<not> unstarted s r \<Longrightarrow> evolves s (set_done r s)"
  unfolding evolves_def orderly_iff
  by (auto simp: frame_set_done) (auto simp: set_done_def unstarted_def split: if_splits)

lemma evolves_reg: "evolves s (s\<lparr>trace := trace s @ [Registered r]\<rparr>)"
  unfolding evolves_def orderly_iff by (auto simp: frame_reg) (auto simp: unstarted_def)

lemma in_order_start: "unstarted s r \<Longrightarrow> deps_done s r \<Longrightarrow> in_order (Invoked r (heap s r) (registry s))"
  by (auto simp: unstarted_def deps_done_def map_of_registry split: option.splits)

lemma evolves_start:
  assumes "unstarted s r" "deps_done s r" "isRunning s"
  shows "evolves s (start r s)"
proof -
  have "trace (start r s) = trace s @ [Invoked r (heap s r) (registry s)]"
    by (simp add: start_def set_running_def)
  moreover have "\<forall>q. unstarted s q \<and> \<not> unstarted (start r s) q \<longrightarrow> q = r"
    by (auto simp: start_def set_running_def unstarted_def)
  ultimately have "orderly s (start r s)"
    unfolding orderly_iff using assms in_order_start [OF assms(1,2)] by auto
  then show ?thesis using assms(1) by (simp add: evolves_def frame_start)
qed

lemma evolves_keep: "evolves s s' \<Longrightarrow> \<not> unstarted s r \<Longrightarrow> \<not> unstarted s' r"
  by (auto simp: evolves_def frame_def)

lemma runTask_evolves:
  "runTask k r s = Some s' \<Longrightarrow> unstarted s r \<Longrightarrow> deps_done s r \<Longrightarrow> isRunning s \<Longrightarrow> evolves s s'"
proof (rule runTask_R [where R = evolves])
  show "\<And>s. evolves s s" by (rule evolves_refl)
  show "\<And>a b c. evolves a b \<Longrightarrow> evolves b c \<Longrightarrow> evolves a c" by (rule evolves_trans)
  show "\<And>e b s. evolves s (stop e b s)" by (rule evolves_stop)
  show "\<And>r s. \<not> unstarted s r \<Longrightarrow> evolves s (set_done r s)" by (rule evolves_set_done)
  show "\<And>r s s'. evolves s s' \<Longrightarrow> \<not> unstarted s r \<Longrightarrow> \<not> unstarted s' r" by (rule evolves_keep)
  show "\<And>r s. unstarted s r \<Longrightarrow> deps_done s r \<Longrightarrow> isRunning s \<Longrightarrow> evolves s (start r s)"
    by (rule evolves_start)
  show "\<And>r s. evolves s (s\<lparr>trace := trace s @ [Registered r]\<rparr>)" by (rule evolves_reg)
qed

lemma scan_evolves: "scan k ns s = Some (x, s') \<Longrightarrow> isRunning s \<Longrightarrow> evolves s s'"
  by (rule scan_R [where R = evolves, OF evolves_refl evolves_trans evolves_stop
        evolves_set_done evolves_keep runTask_evolves])

lemma runStep_evolves: "runStep k s = Some (x, s') \<Longrightarrow> evolves s s'"
  by (rule runStep_R [where R = evolves, OF evolves_refl evolves_trans evolves_stop
        evolves_set_done evolves_keep runTask_evolves])

lemma cb_evolves: "cb k r v s = Some (x, s') \<Longrightarrow> \<not> unstarted s r \<Longrightarrow> evolves s s'"
  by (rule cb_R [where R = evolves, OF evolves_refl evolves_trans evolves_stop
        evolves_set_done evolves_keep runTask_evolves])

lemma calls_evolves: "calls k r vs s = Some (x, s') \<Longrightarrow> \<not> unstarted s r \<Longrightarrow> evolves s s'"
  by (rule calls_R [where R = evolves, OF evolves_refl evolves_trans evolves_stop
        evolves_set_done evolves_keep runTask_evolves])

subsection \<open>The body of the loop\<close>

lemma scan_Cons:
  "scan k (n # ns) s =
     (case lookup s n of
        None \<Rightarrow> Some (Some TypeError, s)
      | Some r \<Rightarrow>
         (case visit k r s of
            None \<Rightarrow> None
          | Some s2 \<Rightarrow> if \<not> isRunning s2 then Some (None, s2) else scan k ns s2))"
  by (cases "lookup s n") (simp_all add: scan.simps visit_def)

lemma visit_ready: "unstarted s r \<Longrightarrow> deps_done s r \<Longrightarrow> visit k r s = runTask k r s"
  by (simp add: visit_def unstarted_def readyToRunTask_deps_done)

lemma visit_skip:
  assumes "\<not> (unstarted s r \<and> deps_done s r)"
  shows "\<exists>s2. visit k r s = Some s2 \<and> (s2 = s \<or> (\<exists>m. s2 = stop m False s))"
proof (cases "unstarted s r")
  case False
  then show ?thesis by (auto simp: visit_def unstarted_def)
next
  case True
  obtain rdy s1 where rd: "readyToRunTask s (heap s r) = (rdy, s1)" by fastforce
  with assms True have "\<not> rdy" by (auto dest: readyToRunTask_True)
  with rd have "s1 = s \<or> (\<exists>m. s1 = stop m False s)" by (auto dest: readyToRunTask_False)
  moreover have "visit k r s = Some s1" using rd \<open>\<not> rdy\<close> True by (simp add: visit_def unstarted_def)
  ultimately show ?thesis by simp
qed

lemma visit_evolves:
  assumes "visit k r s = Some s2" "isRunning s"
  shows "evolves s s2"
proof (cases "unstarted s r \<and> deps_done s r")
  case True
  then show ?thesis using assms runTask_evolves by (simp add: visit_ready)
next
  case False
  from visit_skip [OF this, of k] assms(1) show ?thesis
    by (auto intro: evolves_refl evolves_stop)
qed

subsection \<open>How deep the stack gets\<close>

lemma pending_mono:
  assumes "frame s s'"
  shows "set (pending s') \<subseteq> set (pending s)"
proof -
  have "lookup s' = lookup s" "seq s' = seq s" "\<And>r. unstarted s' r \<Longrightarrow> unstarted s r"
    using assms by (auto simp: frame_def lookup_def)
  then show ?thesis by (auto simp: pending_def)
qed

lemma pending_length_mono: "set (pending s') \<subseteq> set (pending s) \<Longrightarrow> length (pending s') \<le> length (pending s)"
proof -
  assume a: "set (pending s') \<subseteq> set (pending s)"
  have "distinct (pending s')" "distinct (pending s)" by (simp_all add: pending_def)
  then have "length (pending s') = card (set (pending s'))" "length (pending s) = card (set (pending s))"
    by (simp_all add: distinct_card)
  then show ?thesis using a by (simp add: card_mono)
qed

lemma evolves_pending: "evolves s s' \<Longrightarrow> length (pending s') \<le> length (pending s)"
  by (simp add: evolves_def pending_mono pending_length_mono)

lemma pending_start:
  assumes "r \<in> set (pending s)"
  shows "length (pending (start r s)) < length (pending s)"
proof -
  have u: "unstarted s r" using assms by (auto simp: pending_def)
  have "set (pending (start r s)) \<subseteq> set (pending s)" using u by (simp add: frame_start pending_mono)
  moreover have "r \<notin> set (pending (start r s))"
    by (auto simp: pending_def start_def set_running_def unstarted_def)
  ultimately have "set (pending (start r s)) \<subset> set (pending s)" using assms by auto
  then have "card (set (pending (start r s))) < card (set (pending s))"
    by (simp add: psubset_card_mono)
  moreover have "distinct (pending (start r s))" "distinct (pending s)" by (simp_all add: pending_def)
  ultimately show ?thesis by (simp add: distinct_card)
qed

lemma pending_member:
  "n \<in> set (seq s) \<Longrightarrow> lookup s n = Some r \<Longrightarrow> unstarted s r \<Longrightarrow> r \<in> set (pending s)"
  by (auto simp: pending_def List.map_filter_def intro!: image_eqI [where x = n])

lemma total_level:
  assumes T: "\<And>r s. r \<in> set (pending s) \<Longrightarrow> deps_done s r \<Longrightarrow> isRunning s
                \<Longrightarrow> length (pending s) \<le> k \<Longrightarrow> runTask k r s \<noteq> None"
  shows scan_total: "\<And>s. set ns \<subseteq> set (seq s) \<Longrightarrow> isRunning s \<Longrightarrow> length (pending s) \<le> k
            \<Longrightarrow> scan k ns s \<noteq> None"
    and runStep_total: "\<And>s. length (pending s) \<le> k \<Longrightarrow> runStep k s \<noteq> None"
    and cb_total: "\<And>s. length (pending s) \<le> k \<Longrightarrow> cb k r v s \<noteq> None"
    and calls_total: "\<And>s. length (pending s) \<le> k \<Longrightarrow> \<not> unstarted s r \<Longrightarrow> calls k r vs s \<noteq> None"
proof -
  have scan: "set ns \<subseteq> set (seq s) \<Longrightarrow> isRunning s \<Longrightarrow> length (pending s) \<le> k
            \<Longrightarrow> scan k ns s \<noteq> None" for ns s
  proof (induction ns arbitrary: s)
    case Nil
    then show ?case by (simp add: scan.simps split: sum.splits)
  next
    case (Cons n ns)
    show ?case
    proof (cases "lookup s n")
      case None
      then show ?thesis by (simp add: scan_Cons)
    next
      case (Some r)
      have "\<exists>s2. visit k r s = Some s2"
      proof (cases "unstarted s r \<and> deps_done s r")
        case True
        then have "r \<in> set (pending s)" using Cons.prems(1) Some by (auto intro: pending_member)
        then show ?thesis using T True Cons.prems by (simp add: visit_ready)
      next
        case False
        then show ?thesis using visit_skip by blast
      qed
      then obtain s2 where v: "visit k r s = Some s2" by blast
      then have e: "evolves s s2" using Cons.prems(2) by (rule visit_evolves)
      then have "length (pending s2) \<le> k" "seq s2 = seq s"
        using Cons.prems(3) evolves_pending [OF e] by (auto simp: evolves_def frame_def)
      then have "isRunning s2 \<Longrightarrow> scan k ns s2 \<noteq> None" using Cons.IH [of s2] Cons.prems(1) by simp
      then show ?thesis using Some v by (auto simp: scan_Cons)
    qed
  qed
  show "\<And>s. set ns \<subseteq> set (seq s) \<Longrightarrow> isRunning s \<Longrightarrow> length (pending s) \<le> k
            \<Longrightarrow> scan k ns s \<noteq> None" by (rule scan)
  show rs: "length (pending s) \<le> k \<Longrightarrow> runStep k s \<noteq> None" for s
    using scan [of "seq s" s] by (simp add: runStep.simps)
  show cbt: "length (pending s) \<le> k \<Longrightarrow> cb k r v s \<noteq> None" for s r v
  proof -
    assume a: "length (pending s) \<le> k"
    have "length (pending (set_done r s)) \<le> length (pending s)"
      by (simp add: frame_set_done pending_mono pending_length_mono)
    then show ?thesis using a rs [of "set_done r s"] by (simp add: cb.simps)
  qed
  show "\<And>s. length (pending s) \<le> k \<Longrightarrow> \<not> unstarted s r \<Longrightarrow> calls k r vs s \<noteq> None"
  proof (induction vs)
    case Nil
    then show ?case by (simp add: calls.simps)
  next
    case (Cons v vs)
    from cbt [OF Cons.prems(1), of r v] obtain y s1 where c: "cb k r v s = Some (y, s1)" by auto
    then have e: "evolves s s1" using Cons.prems(2) by (rule cb_evolves)
    then have "length (pending s1) \<le> k" "\<not> unstarted s1 r"
      using Cons.prems evolves_pending [OF e] evolves_keep [OF e] by auto
    then have "calls k r vs s1 \<noteq> None" by (rule Cons.IH)
    then show ?case using c by (cases y) (auto simp: calls.simps)
  qed
qed

lemma runTask_total:
  "r \<in> set (pending s) \<Longrightarrow> deps_done s r \<Longrightarrow> isRunning s \<Longrightarrow> length (pending s) \<le> k
     \<Longrightarrow> runTask k r s \<noteq> None"
proof (induction k arbitrary: r s)
  case 0
  then show ?case by (cases "pending s") auto
next
  case (Suc k)
  have "length (pending (start r s)) \<le> k" using pending_start [OF Suc.prems(1)] Suc.prems(4) by simp
  moreover have "\<not> unstarted (start r s) r" by (simp add: start_def set_running_def unstarted_def)
  ultimately have "calls k r (sync_calls (behaviour (fn (heap s r)))) (start r s) \<noteq> None"
    using calls_total [OF Suc.IH] by blast
  then show ?case by (auto simp: runTask_Suc split: option.splits)
qed

lemma runStep_returns: "length (pending s) \<le> k \<Longrightarrow> \<exists>x s'. runStep k s = Some (x, s')"
  using runStep_total [OF runTask_total, where s = s and k = k] by auto

lemma cb_returns: "length (pending s) \<le> k \<Longrightarrow> \<exists>x s'. cb k r v s = Some (x, s')"
  using cb_total [OF runTask_total, where s = s and k = k and r = r and v = v] by auto

lemma pending_le_seq: "length (pending s) \<le> length (seq s)"
proof -
  have "length (pending s) \<le> length (List.map_filter (lookup s) (seq s))"
    unfolding pending_def by (meson length_filter_le length_remdups_leq order_trans)
  also have "\<dots> \<le> length (seq s)" by (simp add: List.map_filter_def)
  finally show ?thesis .
qed

subsection \<open>No exception when the sequence is registered\<close>

lemma allDone_from_registered:
  "\<forall>n \<in> set ns. lookup s n \<noteq> None \<Longrightarrow> \<exists>b. allDone_from s ns = Inr b"
  by (induction ns) (auto split: option.splits)

lemma evolves_seq_registered: "evolves s s' \<Longrightarrow> seq_registered s \<Longrightarrow> seq_registered s'"
  by (auto simp: evolves_def seq_registered_def frame_lookup) (auto simp: frame_def)

lemma scan_no_throw:
  "scan k ns s = Some (x, s') \<Longrightarrow> isRunning s \<Longrightarrow> seq_registered s \<Longrightarrow> set ns \<subseteq> set (seq s)
     \<Longrightarrow> x = None"
proof (induction ns arbitrary: s)
  case Nil
  from allDone_from_registered [of "seq s" s] Nil.prems(3) obtain b where "allDone s = Inr b"
    by (auto simp: allDone_def seq_registered_def)
  then show ?case using Nil.prems(1) by (simp add: scan.simps)
next
  case (Cons n ns)
  from Cons.prems(3,4) obtain r where r: "lookup s n = Some r" by (auto simp: seq_registered_def)
  with Cons.prems(1) obtain s2 where v: "visit k r s = Some s2"
    and rest: "(if \<not> isRunning s2 then Some (None, s2) else scan k ns s2) = Some (x, s')"
    by (auto simp: scan_Cons split: option.splits)
  have e: "evolves s s2" using v Cons.prems(2) by (rule visit_evolves)
  then have "seq_registered s2" "seq s2 = seq s"
    using Cons.prems(3) evolves_seq_registered by (auto simp: evolves_def frame_def)
  then show ?case using rest Cons.IH [of s2] Cons.prems(4) by (auto split: if_splits)
qed

lemma runStep_no_throw: "runStep k s = Some (x, s') \<Longrightarrow> seq_registered s \<Longrightarrow> x = None"
  using scan_no_throw [of k "seq s" s x s'] by (auto simp: runStep.simps split: if_splits)

subsection \<open>Taking a \<open>runTask\<close> apart\<close>

lemma after_call_evolves:
  assumes "\<not> unstarted s r"
  shows "evolves s (after_call r t thrown s)"
    and "started_refs (new_events s (after_call r t thrown s)) = []"
proof -
  have a: "evolves s (after_call r t thrown s) \<and> \<not> list_ex invoked (new_events s (after_call r t thrown s))"
  proof (cases thrown)
    case None
    have "new_events s (s\<lparr>trace := trace s @ [Registered r]\<rparr>) = [Registered r]"
      "new_events s (set_done r s) = []" "new_events s s = []"
      by (simp_all add: new_events_def set_done_def)
    then show ?thesis unfolding None after_call_None
      using evolves_reg [of s r] evolves_set_done [OF assms] evolves_refl [of s] by simp
  next
    case (Some v)
    let ?a = "stop (or_else v (Str (name t @ '' threw an exception''))) False s"
    have e: "evolves s ?a" by (rule evolves_stop)
    then have "\<not> unstarted ?a r" using assms evolves_keep by blast
    then have "evolves ?a (set_done r ?a)" by (rule evolves_set_done)
    with e have e2: "evolves s (set_done r ?a)" by (rule evolves_trans)
    have "\<not> list_ex invoked (new_events s ?a)"
      by (auto simp: new_events_def stop_def split: option.splits)
    moreover have "new_events s (set_done r ?a) = new_events s ?a"
      by (simp add: new_events_def set_done_def)
    ultimately show ?thesis unfolding Some after_call_Some using e e2 by simp
  qed
  then show "evolves s (after_call r t thrown s)" by simp
  from a show "started_refs (new_events s (after_call r t thrown s)) = []"
    by (simp add: started_refs_invoked)
qed

lemma new_events_trans:
  assumes "evolves a b" "evolves b c"
  shows "new_events a c = new_events a b @ new_events b c"
proof -
  have "trace b = trace a @ new_events a b" "trace c = trace b @ new_events b c"
    using assms by (simp_all add: evolves_def orderly_new_events)
  then have "trace c = trace a @ (new_events a b @ new_events b c)" by simp
  then show ?thesis unfolding new_events_def [of a c] by simp
qed

lemma new_events_start: "new_events s (start r s) = [Invoked r (heap s r) (registry s)]"
  by (simp add: new_events_def start_def set_running_def)

lemma runTask_parts:
  assumes "runTask k r s = Some s'" "unstarted s r" "deps_done s r" "isRunning s"
  shows "\<exists>j y s2 thrown. k = Suc j
           \<and> calls j r (sync_calls (behaviour (fn (heap s r)))) (start r s) = Some (y, s2)
           \<and> s' = after_call r (heap s r) thrown s2
           \<and> (thrown = None \<longleftrightarrow> y = None \<and> (\<exists>h. outcome (behaviour (fn (heap s r))) = Returns h))
           \<and> evolves s (start r s) \<and> evolves (start r s) s2 \<and> evolves s2 s'
           \<and> started_refs (new_events s2 s') = [] \<and> \<not> unstarted s' r"
proof -
  from assms(1) obtain j where k: "k = Suc j" by (cases k) (auto simp: runTask.simps)
  let ?t = "heap s r"
  obtain y s2 where c: "calls j r (sync_calls (behaviour (fn ?t))) (start r s) = Some (y, s2)"
    using assms(1) k by (cases "calls j r (sync_calls (behaviour (fn ?t))) (start r s)")
      (auto simp: runTask_Suc)
  obtain thrown where s': "s' = after_call r ?t thrown s2"
    and th: "thrown = None \<longleftrightarrow> y = None \<and> (\<exists>h. outcome (behaviour (fn ?t)) = Returns h)"
    using assms(1) c k by (cases y; cases "outcome (behaviour (fn ?t))") (auto simp: runTask_Suc)
  have u1: "\<not> unstarted (start r s) r" by (simp add: start_def set_running_def unstarted_def)
  have e1: "evolves s (start r s)" using assms by (simp add: evolves_start)
  have e2: "evolves (start r s) s2" using c u1 by (rule calls_evolves)
  then have u2: "\<not> unstarted s2 r" using u1 evolves_keep by blast
  have e3: "evolves s2 s'" "started_refs (new_events s2 s') = []"
    unfolding s' using after_call_evolves [OF u2] by blast+
  then have "\<not> unstarted s' r" using u2 evolves_keep by blast
  with k c s' th e1 e2 e3 show ?thesis by blast
qed

subsection \<open>Start order\<close>

lemma before_Nil: "before x y []"
  by (simp add: before_def)

lemma before_append:
  assumes "before x y zs" and "y \<notin> set zs \<Longrightarrow> x \<in> set zs \<or> before x y ws"
  shows "before x y (zs @ ws)"
proof (cases "y \<in> set zs")
  case True
  then have "takeWhile (\<lambda>z. z \<noteq> y) (zs @ ws) = takeWhile (\<lambda>z. z \<noteq> y) zs"
    by (intro takeWhile_append1 [where x = y]) auto
  then show ?thesis using assms(1) True by (simp add: before_def)
next
  case False
  then have t: "takeWhile (\<lambda>z. z \<noteq> y) (zs @ ws) = zs @ takeWhile (\<lambda>z. z \<noteq> y) ws"
    by (intro takeWhile_append2) auto
  from assms(2) [OF False] False show ?thesis unfolding before_def t by auto
qed





lemma earlier_quiet: "started_refs (new_events s s') = [] \<Longrightarrow> earlier ra rb s s'"
  by (simp add: earlier_def before_Nil)

lemma earlier_refl: "earlier ra rb s s"
  by (simp add: earlier_quiet new_events_def)

lemma earlier_trans:
  assumes "evolves a b" "evolves b c" "earlier ra rb a b" "earlier ra rb b c"
  shows "earlier ra rb a c"
proof (cases "unstarted a ra")
  case False
  then show ?thesis by (simp add: earlier_def)
next
  case True
  then have b1: "before ra rb (started_refs (new_events a b))" using assms(3) by (simp add: earlier_def)
  have "ra \<in> set (started_refs (new_events a b)) \<or> before ra rb (started_refs (new_events b c))"
  proof (cases "unstarted b ra")
    case True
    then show ?thesis using assms(4) by (simp add: earlier_def)
  next
    case False
    then show ?thesis using assms(1) True by (auto simp: evolves_def orderly_def)
  qed
  then have "before ra rb (started_refs (new_events a b) @ started_refs (new_events b c))"
    using b1 by (intro before_append) auto
  then show ?thesis by (simp add: earlier_def new_events_trans [OF assms(1,2)])
qed

lemma evolves_ahead:
  assumes "evolves s s'"
  shows "ahead ra rb s' ns = ahead ra rb s ns"
proof -
  have "lookup s' = lookup s" using assms by (simp add: evolves_def frame_lookup)
  then show ?thesis by (simp add: ahead_def)
qed

lemma evolves_deps_done: "evolves s s' \<Longrightarrow> deps_done s r \<Longrightarrow> deps_done s' r"
  by (auto simp: evolves_def intro: frame_deps_done)

lemma evolves_seq: "evolves s s' \<Longrightarrow> seq s' = seq s"
  by (simp add: evolves_def frame_def)

lemma evolves_unstarted: "evolves s s' \<Longrightarrow> unstarted s' r \<Longrightarrow> unstarted s r"
  using evolves_keep by blast

lemma order_level:
  assumes T: "\<And>r s s'. runTask k r s = Some s' \<Longrightarrow> unstarted s r \<Longrightarrow> deps_done s r
                \<Longrightarrow> isRunning s \<Longrightarrow> deps_done s ra \<Longrightarrow> ahead ra rb s (seq s)
                \<Longrightarrow> (r = rb \<longrightarrow> \<not> unstarted s ra) \<Longrightarrow> earlier ra rb s s'"
  shows scan_order: "\<And>s. scan k ns s = Some (x, s') \<Longrightarrow> isRunning s \<Longrightarrow> deps_done s ra
            \<Longrightarrow> ahead ra rb s (seq s) \<Longrightarrow> (unstarted s ra \<longrightarrow> ahead ra rb s ns) \<Longrightarrow> earlier ra rb s s'"
    and runStep_order: "\<And>s. runStep k s = Some (x, s') \<Longrightarrow> deps_done s ra
            \<Longrightarrow> ahead ra rb s (seq s) \<Longrightarrow> earlier ra rb s s'"
    and cb_order: "\<And>s. cb k r v s = Some (x, s') \<Longrightarrow> \<not> unstarted s r \<Longrightarrow> deps_done s ra
            \<Longrightarrow> ahead ra rb s (seq s) \<Longrightarrow> earlier ra rb s s'"
    and calls_order: "\<And>s. calls k r vs s = Some (x, s') \<Longrightarrow> \<not> unstarted s r \<Longrightarrow> deps_done s ra
            \<Longrightarrow> ahead ra rb s (seq s) \<Longrightarrow> earlier ra rb s s'"
proof -
  have scan: "scan k ns s = Some (x, s') \<Longrightarrow> isRunning s \<Longrightarrow> deps_done s ra
            \<Longrightarrow> ahead ra rb s (seq s) \<Longrightarrow> (unstarted s ra \<longrightarrow> ahead ra rb s ns) \<Longrightarrow> earlier ra rb s s'"
    for ns s x s'
  proof (induction ns arbitrary: s)
    case Nil
    then have "started_refs (new_events s s') = []"
      by (auto simp: scan.simps new_events_def stop_def split: sum.splits if_splits option.splits)
    then show ?case by (rule earlier_quiet)
  next
    case (Cons n ns)
    show ?case
    proof (cases "lookup s n")
      case None
      with Cons.prems(1) show ?thesis by (auto simp: scan_Cons earlier_refl)
    next
      case (Some r)
      with Cons.prems(1) obtain s2 where v: "visit k r s = Some s2"
        and rest: "(if \<not> isRunning s2 then Some (None, s2) else scan k ns s2) = Some (x, s')"
        by (auto simp: scan_Cons split: option.splits)
      have e: "evolves s s2" using v Cons.prems(2) by (rule visit_evolves)
      have rb: "r = rb \<Longrightarrow> \<not> unstarted s ra"
        using Cons.prems(5) Some by (auto simp: ahead_def)
      have c1: "earlier ra rb s s2"
      proof (cases "unstarted s r \<and> deps_done s r")
        case True
        then have "runTask k r s = Some s2" using v by (simp add: visit_ready)
        then show ?thesis using T True Cons.prems rb by blast
      next
        case False
        from visit_skip [OF this, of k] v have "s2 = s \<or> (\<exists>m. s2 = stop m False s)" by auto
        then have "started_refs (new_events s s2) = []"
          by (auto simp: new_events_def stop_def split: option.splits)
        then show ?thesis by (rule earlier_quiet)
      qed
      show ?thesis
      proof (cases "isRunning s2")
        case False
        then show ?thesis using rest c1 by simp
      next
        case True
        then have sc: "scan k ns s2 = Some (x, s')" using rest by simp
        have "ahead ra rb s2 ns" if u2: "unstarted s2 ra"
        proof -
          have u: "unstarted s ra" using e u2 by (rule evolves_unstarted)
          then have "ahead ra rb s (n # ns)" using Cons.prems(5) by simp
          then obtain a where a: "a \<in> set (takeWhile (\<lambda>n. lookup s n \<noteq> Some rb) (n # ns))"
            "lookup s a = Some ra" by (auto simp: ahead_def)
          have "a \<noteq> n"
          proof
            assume "a = n"
            then have "r = ra" using a(2) Some by simp
            then have "runTask k ra s = Some s2" using v u Cons.prems(3) by (simp add: visit_ready)
            from runTask_parts [OF this u Cons.prems(3,2)] have "\<not> unstarted s2 ra" by blast
            then show False using u2 by simp
          qed
          then have "a \<in> set (takeWhile (\<lambda>n. lookup s n \<noteq> Some rb) ns)"
            using a(1) by (auto split: if_splits)
          then have "ahead ra rb s ns" using a(2) by (auto simp: ahead_def)
          then show ?thesis using e by (simp add: evolves_ahead)
        qed
        then have "earlier ra rb s2 s'"
          using Cons.IH [OF sc True] Cons.prems(3,4) e
          by (simp add: evolves_deps_done evolves_ahead evolves_seq)
        moreover have "evolves s2 s'" using sc True by (rule scan_evolves)
        ultimately show ?thesis using e c1 earlier_trans by blast
      qed
    qed
  qed
  show "\<And>s. scan k ns s = Some (x, s') \<Longrightarrow> isRunning s \<Longrightarrow> deps_done s ra
            \<Longrightarrow> ahead ra rb s (seq s) \<Longrightarrow> (unstarted s ra \<longrightarrow> ahead ra rb s ns) \<Longrightarrow> earlier ra rb s s'"
    by (rule scan)
  show rs: "runStep k s = Some (x, s') \<Longrightarrow> deps_done s ra
            \<Longrightarrow> ahead ra rb s (seq s) \<Longrightarrow> earlier ra rb s s'" for s x s'
    using scan [of "seq s" s x s'] by (auto simp: runStep.simps earlier_refl split: if_splits)
  show cbo: "cb k r v s = Some (x, s') \<Longrightarrow> \<not> unstarted s r \<Longrightarrow> deps_done s ra
            \<Longrightarrow> ahead ra rb s (seq s) \<Longrightarrow> earlier ra rb s s'" for s r v x s'
  proof -
    assume a: "cb k r v s = Some (x, s')" "\<not> unstarted s r" "deps_done s ra" "ahead ra rb s (seq s)"
    let ?d = "set_done r s"
    have e: "evolves s ?d" using a(2) by (rule evolves_set_done)
    have c1: "earlier ra rb s ?d" by (rule earlier_quiet) (simp add: new_events_def set_done_def)
    show ?thesis
    proof (cases "truthy v")
      case True
      then have s': "s' = stop v False ?d" using a(1) by (simp add: cb.simps)
      have "earlier ra rb ?d s'" unfolding s'
        by (rule earlier_quiet) (auto simp: new_events_def stop_def split: option.splits)
      moreover have "evolves ?d s'" unfolding s' by (rule evolves_stop)
      ultimately show ?thesis using e c1 earlier_trans by blast
    next
      case False
      then have r: "runStep k ?d = Some (x, s')" using a(1) by (simp add: cb.simps)
      then have "earlier ra rb ?d s'"
        using rs [of ?d x s'] a(3,4) e by (simp add: evolves_deps_done evolves_ahead evolves_seq)
      moreover have "evolves ?d s'" using r by (rule runStep_evolves)
      ultimately show ?thesis using e c1 earlier_trans by blast
    qed
  qed
  show "\<And>s. calls k r vs s = Some (x, s') \<Longrightarrow> \<not> unstarted s r \<Longrightarrow> deps_done s ra
            \<Longrightarrow> ahead ra rb s (seq s) \<Longrightarrow> earlier ra rb s s'"
  proof (induction vs)
    case Nil
    then show ?case by (auto simp: calls.simps earlier_refl)
  next
    case (Cons v vs)
    from Cons.prems(1) obtain y s1 where c: "cb k r v s = Some (y, s1)"
      by (auto simp: calls.simps split: option.splits)
    have e: "evolves s s1" using c Cons.prems(2) by (rule cb_evolves)
    have c1: "earlier ra rb s s1" using c Cons.prems(2-4) by (rule cbo)
    show ?case
    proof (cases y)
      case (Some exn)
      then show ?thesis using Cons.prems(1) c c1 by (simp add: calls.simps)
    next
      case None
      then have cs: "calls k r vs s1 = Some (x, s')" using Cons.prems(1) c by (simp add: calls.simps)
      have u1: "\<not> unstarted s1 r" using e Cons.prems(2) by (rule evolves_keep)
      have "earlier ra rb s1 s'"
        using Cons.IH [OF cs u1] Cons.prems(3,4) e
        by (simp add: evolves_deps_done evolves_ahead evolves_seq)
      moreover have "evolves s1 s'" using cs u1 by (rule calls_evolves)
      ultimately show ?thesis using e c1 earlier_trans by blast
    qed
  qed
qed

lemma runTask_order:
  "runTask k r s = Some s' \<Longrightarrow> unstarted s r \<Longrightarrow> deps_done s r
     \<Longrightarrow> isRunning s \<Longrightarrow> deps_done s ra \<Longrightarrow> ahead ra rb s (seq s)
     \<Longrightarrow> (r = rb \<longrightarrow> \<not> unstarted s ra) \<Longrightarrow> earlier ra rb s s'"
proof (induction k arbitrary: r s s')
  case 0
  then show ?case by (simp add: runTask.simps)
next
  case (Suc k)
  from runTask_parts [OF Suc.prems(1-4)] obtain y s2 thrown where
    c: "calls k r (sync_calls (behaviour (fn (heap s r)))) (start r s) = Some (y, s2)"
    and e: "evolves s (start r s)" "evolves (start r s) s2" "evolves s2 s'"
    and q: "started_refs (new_events s2 s') = []"
    by auto
  have u1: "\<not> unstarted (start r s) r" by (simp add: start_def set_running_def unstarted_def)
  have c1: "earlier ra rb s (start r s)"
    using Suc.prems(7) by (auto simp: earlier_def new_events_start before_def)
  have c2: "earlier ra rb (start r s) s2"
    using calls_order [OF Suc.IH c u1] Suc.prems(5,6) e(1)
    by (simp add: evolves_deps_done evolves_ahead evolves_seq)
  have c3: "earlier ra rb s2 s'" using q by (rule earlier_quiet)
  have "earlier ra rb s s2" using e(1,2) c1 c2 by (rule earlier_trans)
  moreover have "evolves s s2" using e(1,2) by (rule evolves_trans)
  ultimately show ?case using e(3) c3 earlier_trans by blast
qed

lemma runStep_start_order:
  "runStep k s = Some (x, s') \<Longrightarrow> deps_done s ra \<Longrightarrow> ahead ra rb s (seq s) \<Longrightarrow> earlier ra rb s s'"
  by (rule runStep_order [OF runTask_order])

subsection \<open>The sequencer\<close>

lemma sequence_Nil [simp]: "sequence reg [] res nest = Inr res"
  by (simp add: sequence.simps)

lemma sequence_ConsD:
  "sequence reg (n # ns) res nest = Inr out \<Longrightarrow>
     \<exists>t r1. n \<notin> set nest \<and> map_of reg n = Some t
        \<and> sequence reg (dep_names (dep t)) res (nest @ [n]) = Inr r1
        \<and> sequence reg ns (if n \<in> set r1 then r1 else r1 @ [n]) nest = Inr out"
  by (auto simp: sequence.simps split: if_splits option.splits sum.splits)

lemma deps_first_snoc:
  assumes "deps_first reg xs" "\<forall>d. (n, d) \<in> dep_rel reg \<longrightarrow> d \<in> set xs"
  shows "deps_first reg (xs @ [n])"
  unfolding deps_first_def
proof (intro allI impI)
  fix i d assume i: "i < length (xs @ [n])" and d: "((xs @ [n]) ! i, d) \<in> dep_rel reg"
  show "d \<in> set (take i (xs @ [n]))"
  proof (cases "i < length xs")
    case True
    then show ?thesis using assms(1) d by (auto simp: deps_first_def nth_append)
  next
    case False
    then have "i = length xs" using i by simp
    then show ?thesis using assms(2) d by (simp add: nth_append)
  qed
qed

lemma sequence_inv:
  "sequence reg ns res nest = Inr out \<Longrightarrow>
     (\<exists>rest. out = res @ rest) \<and> set ns \<subseteq> set out
     \<and> (distinct res \<longrightarrow> distinct out)
     \<and> (\<forall>m \<in> set out. m \<in> set res \<or> (map_of reg m \<noteq> None \<and> m \<in> (dep_rel reg)\<^sup>* `` set ns))
     \<and> (deps_first reg res \<longrightarrow> deps_first reg out)"
proof (induction reg ns res nest arbitrary: out rule: sequence.induct)
  case (1 reg results nest)
  then show ?case by simp
next
  case (2 reg n ns results nest)
  from sequence_ConsD [OF "2.prems"] obtain t r1 where
    n: "n \<notin> set nest" "map_of reg n = Some t"
    and s1: "sequence reg (dep_names (dep t)) results (nest @ [n]) = Inr r1"
    and s2: "sequence reg ns (if n \<in> set r1 then r1 else r1 @ [n]) nest = Inr out"
    by blast
  let ?r2 = "if n \<in> set r1 then r1 else r1 @ [n]"
  note ih1 = "2.IH"(1) [OF n s1]
  note ih2 = "2.IH"(2) [OF n s1 s2]
  have dn: "(n, d) \<in> dep_rel reg \<longleftrightarrow> d \<in> set (dep_names (dep t))" for d
    using n(2) by (simp add: dep_rel_def)
  have p: "\<exists>rest. out = results @ rest" using ih1 ih2 by (auto split: if_splits)
  have nin: "n \<in> set out" using ih2 by (auto split: if_splits)
  have sub: "set (n # ns) \<subseteq> set out" using ih2 nin by simp
  have dis: "distinct results \<longrightarrow> distinct out" using ih1 ih2 by (auto split: if_splits)
  have mem: "\<forall>m \<in> set out. m \<in> set results
                \<or> (map_of reg m \<noteq> None \<and> m \<in> (dep_rel reg)\<^sup>* `` set (n # ns))"
  proof
    fix m assume "m \<in> set out"
    then consider "m \<in> set r1" | "m = n" | "map_of reg m \<noteq> None \<and> m \<in> (dep_rel reg)\<^sup>* `` set ns"
      using ih2 by (auto split: if_splits)
    then show "m \<in> set results \<or> (map_of reg m \<noteq> None \<and> m \<in> (dep_rel reg)\<^sup>* `` set (n # ns))"
    proof cases
      case 1
      then have "m \<in> set results \<or> (map_of reg m \<noteq> None \<and> m \<in> (dep_rel reg)\<^sup>* `` set (dep_names (dep t)))"
        using ih1 by blast
      moreover have "m \<in> (dep_rel reg)\<^sup>* `` set (dep_names (dep t)) \<Longrightarrow> m \<in> (dep_rel reg)\<^sup>* `` {n}"
        using dn by (auto intro: converse_rtrancl_into_rtrancl)
      ultimately show ?thesis by auto
    next
      case 2
      then show ?thesis using n(2) by auto
    next
      case 3
      then show ?thesis by auto
    qed
  qed
  have ord: "deps_first reg results \<longrightarrow> deps_first reg out"
  proof
    assume "deps_first reg results"
    then have o1: "deps_first reg r1" using ih1 by blast
    have "\<forall>d. (n, d) \<in> dep_rel reg \<longrightarrow> d \<in> set r1" using ih1 dn by auto
    then have "deps_first reg ?r2" using o1 by (simp add: deps_first_snoc)
    then show "deps_first reg out" using ih2 by blast
  qed
  from p sub dis mem ord show ?case by blast
qed

lemma sequence_append:
  "sequence reg (xs @ ys) res nest =
     (case sequence reg xs res nest of Inl e \<Rightarrow> Inl e | Inr r \<Rightarrow> sequence reg ys r nest)"
proof (induction xs arbitrary: res)
  case Nil
  then show ?case by simp
next
  case (Cons x xs)
  show ?case
  proof (cases "x \<in> set nest")
    case True
    then show ?thesis by (simp add: sequence.simps(2))
  next
    case False
    show ?thesis
    proof (cases "map_of reg x")
      case None
      then show ?thesis using False by (simp add: sequence.simps(2))
    next
      case (Some t)
      show ?thesis
      proof (cases "sequence reg (dep_names (dep t)) res (nest @ [x])")
        case (Inl e)
        then show ?thesis using False Some by (simp add: sequence.simps(2))
      next
        case (Inr r1)
        then show ?thesis using False Some Cons.IH by (simp add: sequence.simps(2))
      qed
    qed
  qed
qed

lemma deps_first_closed:
  assumes "deps_first reg xs" "n \<in> set xs" "(n, d) \<in> (dep_rel reg)\<^sup>*"
  shows "d \<in> set xs"
  using assms(3,2)
proof (induction rule: rtrancl_induct)
  case base
  then show ?case by simp
next
  case (step y z)
  then have "y \<in> set xs" by simp
  then obtain i where "i < length xs" "xs ! i = y" by (auto simp: in_set_conv_nth)
  then have "z \<in> set (take i xs)" using assms(1) step(2) by (auto simp: deps_first_def)
  then show ?case by (auto dest: in_set_takeD)
qed

lemma sequence_result:
  assumes "sequence reg ns [] nest = Inr out"
  shows "distinct out" and "set out = (dep_rel reg)\<^sup>* `` set ns" and "deps_first reg out"
    and "\<forall>m \<in> set out. map_of reg m \<noteq> None"
proof -
  note i = sequence_inv [OF assms]
  show "distinct out" using i by simp
  show d: "deps_first reg out" using i by (simp add: deps_first_def)
  show "\<forall>m \<in> set out. map_of reg m \<noteq> None" using i by auto
  have "set out \<subseteq> (dep_rel reg)\<^sup>* `` set ns" using i by auto
  moreover have "(dep_rel reg)\<^sup>* `` set ns \<subseteq> set out"
    using deps_first_closed [OF d] i by blast
  ultimately show "set out = (dep_rel reg)\<^sup>* `` set ns" by blast
qed

text \<open>An acyclic registry that holds every name it mentions has a sequence.\<close>

lemma sequence_succeeds:
  "acyclic (dep_rel reg) \<Longrightarrow> \<forall>n d. (n, d) \<in> dep_rel reg \<longrightarrow> map_of reg d \<noteq> None
     \<Longrightarrow> \<forall>n \<in> set ns. map_of reg n \<noteq> None
     \<Longrightarrow> \<forall>m \<in> set nest. \<forall>n \<in> set ns. (m, n) \<in> (dep_rel reg)\<^sup>+
     \<Longrightarrow> \<exists>out. sequence reg ns res nest = Inr out"
proof (induction reg ns res nest rule: sequence.induct)
  case (1 reg results nest)
  then show ?case by simp
next
  case (2 reg n ns results nest)
  note a = "2.prems"(1) and c = "2.prems"(2)
  have nn: "n \<notin> set nest"
  proof
    assume "n \<in> set nest"
    then have "(n, n) \<in> (dep_rel reg)\<^sup>+" using "2.prems"(4) by simp
    then show False using a by (simp add: acyclic_def)
  qed
  from "2.prems"(3) obtain t where t: "map_of reg n = Some t" by auto
  have dn: "\<And>d. d \<in> set (dep_names (dep t)) \<Longrightarrow> (n, d) \<in> dep_rel reg"
    using t by (simp add: dep_rel_def)
  have "\<forall>d \<in> set (dep_names (dep t)). map_of reg d \<noteq> None" using dn c by blast
  moreover have "\<forall>m \<in> set (nest @ [n]). \<forall>d \<in> set (dep_names (dep t)). (m, d) \<in> (dep_rel reg)\<^sup>+"
    using "2.prems"(4) dn by (auto intro: trancl_into_trancl)
  ultimately obtain r1 where r1: "sequence reg (dep_names (dep t)) results (nest @ [n]) = Inr r1"
    using "2.IH"(1) [OF nn t a c] by blast
  have "\<exists>out. sequence reg ns (if n \<in> set r1 then r1 else r1 @ [n]) nest = Inr out"
    using "2.IH"(2) [OF nn t r1 a c] "2.prems"(3,4) by simp
  then show ?case using nn t r1 by (simp add: sequence.simps(2))
qed

subsection \<open>\<open>run\<close>\<close>

lemma run_unfold:
  "run k names nf s =
     (case sequence (registry s) (requested s names) [] [] of
        Inl e \<Rightarrow> Some (Some e, with_notifier nf s)
      | Inr sq \<Rightarrow> runStep k (entry sq nf s))"
  by (cases nf)
     (auto simp: run_def with_notifier_def requested_def entry_def registry_def Let_def
           split: sum.splits)

lemma lookup_entry [simp]: "lookup (entry sq nf s) = lookup s"
  by (cases nf) (auto simp: entry_def with_notifier_def lookup_def)

lemma entry_simps [simp]:
  "seq (entry sq nf s) = sq" "isRunning (entry sq nf s)" "heap (entry sq nf s) = heap s"
  "trace (entry sq nf s) = trace s" "tasks (entry sq nf s) = tasks s"
  "doneCallback (entry sq nf s) = (case nf of None \<Rightarrow> doneCallback s | Some c \<Rightarrow> Some c)"
  by (cases nf; simp add: entry_def with_notifier_def)+

lemma new_events_entry: "new_events (entry sq nf s) s' = new_events s s'"
  by (simp add: new_events_def)

lemma sequence_registered:
  assumes "sequence (registry s) ns [] [] = Inr sq"
  shows "seq_registered (entry sq nf s)"
  using sequence_result(4) [OF assms] by (auto simp: seq_registered_def map_of_registry)

lemma run_returns:
  assumes "sequence (registry s) (requested s names) [] [] = Inr sq" "length sq \<le> k"
  shows "\<exists>s'. run k names nf s = Some (None, s') \<and> evolves (entry sq nf s) s'"
proof -
  have "length (pending (entry sq nf s)) \<le> k"
    using pending_le_seq [of "entry sq nf s"] assms(2) by simp
  then obtain x s' where r: "runStep k (entry sq nf s) = Some (x, s')"
    using runStep_returns by blast
  then have "x = None" using sequence_registered [OF assms(1)] by (rule runStep_no_throw)
  then show ?thesis using r assms(1) runStep_evolves [OF r] by (simp add: run_unfold)
qed

lemma run_cases:
  assumes "run k names nf s = Some (x, s')"
  shows "(\<exists>e. sequence (registry s) (requested s names) [] [] = Inl e \<and> x = Some e \<and> s' = with_notifier nf s)
       \<or> (\<exists>sq. sequence (registry s) (requested s names) [] [] = Inr sq \<and> x = None
              \<and> evolves (entry sq nf s) s')"
proof (cases "sequence (registry s) (requested s names) [] []")
  case (Inl e)
  then show ?thesis using assms by (simp add: run_unfold)
next
  case (Inr sq)
  then have r: "runStep k (entry sq nf s) = Some (x, s')" using assms by (simp add: run_unfold)
  then have "x = None" using sequence_registered [OF Inr] by (rule runStep_no_throw)
  then show ?thesis using Inr runStep_evolves [OF r] by simp
qed

lemma obj_length_behaviour: "obj_length f = params (behaviour f)"
  by (cases f) simp_all

lemma allDone_from_done:
  "\<forall>n \<in> set ns. case lookup s n of None \<Rightarrow> False | Some r \<Rightarrow> done' (heap s r)
     \<Longrightarrow> allDone_from s ns = Inr True"
  by (induction ns) (auto split: option.splits)

lemma scan_all_done:
  assumes "\<forall>n \<in> set (seq s). case lookup s n of None \<Rightarrow> False | Some r \<Rightarrow> done' (heap s r)"
    and "isRunning s"
  shows "set ns \<subseteq> set (seq s) \<Longrightarrow> scan k ns s = Some (None, stop Null True s)"
proof (induction ns)
  case Nil
  then show ?case using allDone_from_done [OF assms(1)] by (simp add: scan.simps allDone_def)
next
  case (Cons n ns)
  then obtain r where r: "lookup s n = Some r" "done' (heap s r)"
    using assms(1) by (auto split: option.splits)
  then have "visit k r s = Some s" by (simp add: visit_def)
  then show ?case using r Cons assms(2) by (simp add: scan_Cons)
qed

lemma dep_rel_two_tasks: "dep_rel (registry two_tasks) = {(''b'', ''a'')}"
  by (auto simp: dep_rel_def registry_def two_tasks_def add_def Orchestrator_def sync_fn_def
           split: if_splits)

lemma cb_in_order: "cb k r v s = Some (x, s') \<Longrightarrow> list_all in_order (new_events s s')"
proof (cases "truthy v")
  case True
  assume "cb k r v s = Some (x, s')"
  with True have "s' = stop v False (set_done r s)" by (simp add: cb.simps)
  then show ?thesis by (auto simp: new_events_def stop_def set_done_def split: option.splits)
next
  case False
  assume "cb k r v s = Some (x, s')"
  with False have "runStep k (set_done r s) = Some (x, s')" by (simp add: cb.simps)
  from runStep_evolves [OF this] show ?thesis
    by (simp add: evolves_def orderly_def new_events_def set_done_def)
qed

lemma run_in_order: "run k asked nf s = Some (x, s') \<Longrightarrow> list_all in_order (new_events s s')"
  using run_cases [of k asked nf s x s']
  by (cases nf) (auto simp: evolves_def orderly_def new_events_entry new_events_def with_notifier_def)

subsection \<open>Failures\<close>

lemma new_events_stop:
  "new_events s (stop e ok s) = (case doneCallback s of None \<Rightarrow> [] | Some c \<Rightarrow> [Notified c e])"
  by (simp add: new_events_def stop_def split: option.splits)

lemma stop_stopped: "\<not> isRunning (stop e ok s)" "doneCallback (stop e ok s) = None"
  by (simp_all add: stop_def split: option.splits)

lemma after_call_Some_stopped:
  "\<not> isRunning (after_call r t (Some v) s)" "doneCallback (after_call r t (Some v) s) = None"
  by (simp_all add: after_call_Some set_done_def stop_def split: option.splits)

lemma runTask_throws:
  assumes "outcome (behaviour (fn (heap s r))) = Throws v" "runTask (Suc k) r s = Some s'"
  shows "\<not> isRunning s'" "doneCallback s' = None"
    "sync_calls (behaviour (fn (heap s r))) = [] \<Longrightarrow> s' = after_call r (heap s r) (Some v) (start r s)"
proof -
  from assms obtain s2 thrown where s': "s' = after_call r (heap s r) (Some thrown) s2"
    by (auto simp: runTask_Suc split: option.splits)
  show "\<not> isRunning s'" "doneCallback s' = None"
    unfolding s' by (rule after_call_Some_stopped)+
  assume "sync_calls (behaviour (fn (heap s r))) = []"
  then show "s' = after_call r (heap s r) (Some v) (start r s)"
    using assms by (simp add: runTask_Suc calls.simps)
qed

lemma depsReady_missing:
  assumes "\<forall>p \<in> set ds. case lookup s p of None \<Rightarrow> False | Some q \<Rightarrow> done' (heap s q)"
    and "lookup s d = None"
  shows "depsReady s t (ds @ d # ds') = (False, stop (missing_msg (name t) d) False s)"
  using assms(1) by (induction ds) (auto simp: assms(2) split: option.splits)

lemma visit_missing:
  assumes "unstarted s r" "dep_names (dep (heap s r)) = ds @ d # ds'"
    and "\<forall>p \<in> set ds. case lookup s p of None \<Rightarrow> False | Some q \<Rightarrow> done' (heap s q)"
    and "lookup s d = None"
  shows "visit k r s = Some (stop (missing_msg (name (heap s r)) d) False s)"
  using assms(1) depsReady_missing [OF assms(3,4), of "heap s r" ds']
  by (simp add: visit_def unstarted_def readyToRunTask_def assms(2))

lemma scan_stops:
  "lookup s n = Some r \<Longrightarrow> visit k r s = Some s' \<Longrightarrow> \<not> isRunning s'
     \<Longrightarrow> scan k (n # ns) s = Some (None, s')"
  by (simp add: scan_Cons)

lemma runStep_stopped: "\<not> isRunning s \<Longrightarrow> runStep k s = Some (None, s)"
  by (simp add: runStep.simps)

lemma set_done_fields [simp]:
  "isRunning (set_done r s) = isRunning s" "trace (set_done r s) = trace s"
  "doneCallback (set_done r s) = doneCallback s" "seq (set_done r s) = seq s"
  "tasks (set_done r s) = tasks s"
  by (simp_all add: set_done_def)

lemma orderly_entry:
  assumes "orderly s0 s'" "trace s0 = trace s" "doneCallback s0 = c" "isRunning s0 = b"
  shows "quiet (new_events s s')" "length (filter notified (new_events s s')) \<le> 1"
    "list_ex notified (new_events s s') \<longrightarrow> \<not> isRunning s' \<and> doneCallback s' = None"
    "list_all in_order (new_events s s')"
    "\<not> b \<longrightarrow> \<not> list_ex invoked (new_events s s')"
proof -
  have n: "new_events s s' = new_events s0 s'" using assms(2) by (simp add: new_events_def)
  show "quiet (new_events s s')" "list_all in_order (new_events s s')"
    "list_ex notified (new_events s s') \<longrightarrow> \<not> isRunning s' \<and> doneCallback s' = None"
    "\<not> b \<longrightarrow> \<not> list_ex invoked (new_events s s')"
    using assms(1,4) unfolding n orderly_def by auto
  have "length (filter notified (new_events s0 s')) \<le> (if doneCallback s0 = None then 0 else 1)"
    using assms(1) by (simp add: orderly_def)
  then show "length (filter notified (new_events s s')) \<le> 1" unfolding n by (auto split: if_splits)
qed

lemma orderly_stop: "orderly s (stop e ok s)"
  using evolves_stop by (simp add: evolves_def)

lemma orderly_refl: "orderly s s"
  using evolves_refl by (simp add: evolves_def)

lemma cb_orderly: "cb k r v s = Some (x, s') \<Longrightarrow> orderly (set_done r s) s'"
proof (cases "truthy v")
  case True
  assume "cb k r v s = Some (x, s')"
  with True have "s' = stop v False (set_done r s)" by (simp add: cb.simps)
  then show ?thesis by (simp add: orderly_stop)
next
  case False
  assume "cb k r v s = Some (x, s')"
  with False have "runStep k (set_done r s) = Some (x, s')" by (simp add: cb.simps)
  from runStep_evolves [OF this] show ?thesis by (simp add: evolves_def)
qed

lemma run_orderly:
  assumes "run k asked nf s = Some (x, s')"
  shows "\<exists>s0. orderly s0 s' \<and> trace s0 = trace s"
proof -
  from run_cases [OF assms] consider "s' = with_notifier nf s"
    | sq where "evolves (entry sq nf s) s'" by blast
  then show ?thesis
  proof cases
    case 1
    have "trace (with_notifier nf s) = trace s" by (cases nf) (simp_all add: with_notifier_def)
    then show ?thesis using 1 orderly_refl by blast
  next
    case 2
    then have "orderly (entry sq nf s) s'" by (simp add: evolves_def)
    then show ?thesis using entry_simps(4) by blast
  qed
qed

lemma set_done_idem:
  assumes "done' (heap s r)" "\<not> running (heap s r)"
  shows "set_done r s = s"
proof -
  have "(heap s r)\<lparr>running := False, done' := True\<rparr> = heap s r"
    using assms by (cases "heap s r") simp
  then show ?thesis by (simp add: set_done_def)
qed

subsection \<open>The claims\<close>

text \<open>
  C1. Every executor invocation happens inside a scheduling pass
  (\<open>runStep\<close>), which \<open>run\<close>, the completion callback and the resolution
  handler enter. A pass returns when the depth bound is at least the number of
  task objects it can still start. Every invocation it makes is in order: in
  the state recorded with the invocation the task was neither done nor
  running and every dependency was registered and done; the same holds for
  the invocations of a whole \<open>run\<close>, \<open>cb\<close> or \<open>onResolved\<close>. And when, at
  the start of a pass, the task object \<open>ra\<close> is eligible (unstarted, its
  dependencies done) and stands in the stored sequence before every name of
  the task object \<open>rb\<close>, then \<open>rb\<close> is not started in the pass unless
  \<open>ra\<close> was started in it before.
\<close>

theorem starts_in_order:
  "(length (pending s) \<le> k \<longrightarrow> (\<exists>x s'. runStep k s = Some (x, s')))
   \<and> (\<forall>x s'. runStep k s = Some (x, s') \<longrightarrow>
        trace s' = trace s @ new_events s s'
        \<and> list_all in_order (new_events s s')
        \<and> (\<forall>ra rb. unstarted s ra \<and> deps_done s ra \<and> ahead ra rb s (seq s)
              \<longrightarrow> before ra rb (started_refs (new_events s s'))))
   \<and> (\<forall>asked nf x s'. run k asked nf s = Some (x, s') \<longrightarrow> list_all in_order (new_events s s'))
   \<and> (\<forall>r v x s'. cb k r v s = Some (x, s') \<longrightarrow> list_all in_order (new_events s s'))
   \<and> (\<forall>r x s'. onResolved k r s = Some (x, s') \<longrightarrow> list_all in_order (new_events s s'))"
proof (intro conjI allI impI)
  show "length (pending s) \<le> k \<Longrightarrow> \<exists>x s'. runStep k s = Some (x, s')"
    by (rule runStep_returns)
next
  fix x s' assume r: "runStep k s = Some (x, s')"
  from runStep_evolves [OF r]
  show "trace s' = trace s @ new_events s s'" "list_all in_order (new_events s s')"
    by (simp_all add: evolves_def orderly_def)
  fix ra rb assume "unstarted s ra \<and> deps_done s ra \<and> ahead ra rb s (seq s)"
  then show "before ra rb (started_refs (new_events s s'))"
    using runStep_start_order [OF r, of ra rb] by (simp add: earlier_def)
next
  fix asked nf x s' assume "run k asked nf s = Some (x, s')"
  then show "list_all in_order (new_events s s')" by (rule run_in_order)
next
  fix r v x s' assume "cb k r v s = Some (x, s')"
  then show "list_all in_order (new_events s s')" by (rule cb_in_order)
next
  fix r x s' assume "onResolved k r s = Some (x, s')"
  then have "runStep k (set_done r s) = Some (x, s')" by (simp add: onResolved_def)
  from runStep_evolves [OF this] show "list_all in_order (new_events s s')"
    by (simp add: evolves_def orderly_def new_events_def set_done_def)
qed

theorem starts_in_order_witness:
  "length (pending xy_entered) \<le> 2
   \<and> unstarted xy_entered 0 \<and> deps_done xy_entered 0 \<and> unstarted xy_entered 1
   \<and> deps_done xy_entered 1 \<and> ahead 0 1 xy_entered (seq xy_entered)
   \<and> (\<exists>x s'. runStep 2 xy_entered = Some (x, s')
         \<and> list_all in_order (new_events xy_entered s')
         \<and> started_refs (new_events xy_entered s') = [0, 1]
         \<and> before 0 1 (started_refs (new_events xy_entered s')))"
proof -
  have 1: "length (pending xy_entered) \<le> 2" by code_simp
  have 2: "unstarted xy_entered 0 \<and> deps_done xy_entered 0 \<and> ahead 0 1 xy_entered (seq xy_entered)"
    by code_simp
  have 3: "unstarted xy_entered 1 \<and> deps_done xy_entered 1" by code_simp
  from starts_in_order [of xy_entered 2] 1 obtain x s' where r: "runStep 2 xy_entered = Some (x, s')"
    by blast
  have 4: "map_option (started_refs \<circ> new_events xy_entered \<circ> snd) (runStep 2 xy_entered) = Some [0, 1]"
    by code_simp
  from starts_in_order [of xy_entered 2] r 2
  have "list_all in_order (new_events xy_entered s')"
    "before 0 1 (started_refs (new_events xy_entered s'))" by blast+
  then show ?thesis using 1 2 3 4 r by auto
qed

text \<open>
  C2. Against the sequencer as the specification describes it: whenever it
  returns a sequence for the requested names, the sequence has no duplicates,
  holds exactly the requested names and everything reachable from them along
  dependencies, and every dependency of a member stands at an earlier
  position; \<open>run\<close>, given the depth bound of the length of the sequence,
  stores it. And it does return a sequence when the dependency graph of the
  registry is acyclic and the requested names and all dependencies are
  registered.
\<close>

theorem sequence_of_registry:
  "(\<forall>sq. sequence reg names [] [] = Inr sq \<longrightarrow>
       distinct sq \<and> set sq = (dep_rel reg)\<^sup>* `` set names \<and> deps_first reg sq
       \<and> (reg = registry s \<and> names = requested s asked \<longrightarrow>
            (\<exists>s'. run (length sq) asked nf s = Some (None, s') \<and> seq s' = sq)))
   \<and> (acyclic (dep_rel reg) \<and> (\<forall>n d. (n, d) \<in> dep_rel reg \<longrightarrow> map_of reg d \<noteq> None)
        \<and> (\<forall>n \<in> set names. map_of reg n \<noteq> None)
        \<longrightarrow> (\<exists>sq. sequence reg names [] [] = Inr sq))"
proof (intro conjI allI impI)
  fix sq assume a: "sequence reg names [] [] = Inr sq"
  show "distinct sq" "set sq = (dep_rel reg)\<^sup>* `` set names" "deps_first reg sq"
    using sequence_result [OF a] by blast+
  assume "reg = registry s \<and> names = requested s asked"
  then have "sequence (registry s) (requested s asked) [] [] = Inr sq" using a by simp
  from run_returns [OF this order_refl, of nf]
  show "\<exists>s'. run (length sq) asked nf s = Some (None, s') \<and> seq s' = sq"
    by (auto simp: evolves_def frame_def)
next
  assume "acyclic (dep_rel reg) \<and> (\<forall>n d. (n, d) \<in> dep_rel reg \<longrightarrow> map_of reg d \<noteq> None)
        \<and> (\<forall>n \<in> set names. map_of reg n \<noteq> None)"
  then show "\<exists>sq. sequence reg names [] [] = Inr sq"
    using sequence_succeeds [of reg names "[]" "[]"] by simp
qed

theorem sequence_of_registry_witness:
  "acyclic (dep_rel (registry two_tasks))
   \<and> sequence (registry two_tasks) [''b''] [] [] = Inr [''a'', ''b'']
   \<and> set [''a'', ''b''] = (dep_rel (registry two_tasks))\<^sup>* `` set [''b'']
   \<and> deps_first (registry two_tasks) [''a'', ''b'']
   \<and> (\<exists>s'. run 2 [''b''] None two_tasks = Some (None, s') \<and> seq s' = [''a'', ''b''])"
proof -
  have "acyclic ({} :: (name \<times> name) set)" by (simp add: acyclic_def)
  then have ac: "acyclic (dep_rel (registry two_tasks))"
    by (simp add: dep_rel_two_tasks)
  have sq: "sequence (registry two_tasks) [''b''] [] [] = Inr [''a'', ''b'']" by code_simp
  have rq: "[''b''] = requested two_tasks [''b'']" by code_simp
  from sequence_of_registry [of "registry two_tasks" "[''b'']" two_tasks "[''b'']" None] sq rq ac
  show ?thesis by (simp add: numeral_2_eq_2)
qed




text \<open>
  C4. With a notifier registered, \<open>stop\<close> fires it once, with the error it
  was given, clears the registration and the running flag; a second \<open>stop\<close>
  right after it, with any arguments, returns the state it was given, so it
  fires nothing.
\<close>

theorem stop_twice:
  assumes "doneCallback s = Some c"
  shows "trace (stop err ok s) = trace s @ [Notified c err]
       \<and> doneCallback (stop err ok s) = None
       \<and> \<not> isRunning (stop err ok s)
       \<and> stop err2 ok2 (stop err ok s) = stop err ok s"
  using assms by (simp add: stop_def)

theorem stop_twice_witness:
  "doneCallback (Orchestrator (Some 7) []) = Some 7
   \<and> trace (stop (Str ''boom'') False (Orchestrator (Some 7) [])) = [Notified 7 (Str ''boom'')]
   \<and> trace (stop Null True (stop (Str ''boom'') False (Orchestrator (Some 7) [])))
       = [Notified 7 (Str ''boom'')]"
proof -
  have h: "doneCallback (Orchestrator (Some 7) []) = Some 7"
    by (simp add: Orchestrator_def)
  from stop_twice [OF h, of "Str ''boom''" False Null True] h show ?thesis
    by (simp add: Orchestrator_def)
qed

text \<open>
  C5, as stated, fails. \<open>a\<close> declares the callback and returns a handle;
  the handle has resolved, so \<open>a\<close> is done and not running, and the run is
  still active because \<open>p\<close> is running. The callback of \<open>a\<close>, invoked now
  with an error, stops the run and fires the notifier with that error.
\<close>

theorem late_callback_counterexample:
  "params (behaviour (fn (heap handle_resolved 0))) = 1
   \<and> outcome (behaviour (fn (heap handle_resolved 0))) = Returns True
   \<and> done' (heap handle_resolved 0) \<and> \<not> running (heap handle_resolved 0)
   \<and> isRunning handle_resolved
   \<and> map_option (isRunning \<circ> snd) (cb 2 0 (Str ''late'') handle_resolved) = Some False
   \<and> map_option (new_events handle_resolved \<circ> snd) (cb 2 0 (Str ''late'') handle_resolved)
       = Some [Notified 7 (Str ''late'')]"
  by code_simp

text \<open>
  C5, amended. When the executor returns a handle (and made no callback
  during the call), \<open>runTask\<close> leaves the task running and not done and
  registers its handlers on the handle: nothing else happens, whatever the
  number of declared parameters. The resolution handler and a callback
  without error do the same: mark the task done and not running and make a
  scheduling pass. A callback invoked when the task is already done and not
  running leaves every field of that task object as it was, but is no no-op:
  with an error it is \<open>stop\<close> with that error, without one it is a
  scheduling pass.
\<close>

theorem deferred_handle_and_late_callback:
  "(outcome (behaviour (fn (heap s r))) = Returns True \<and> sync_calls (behaviour (fn (heap s r))) = []
      \<longrightarrow> (\<exists>s'. runTask (Suc k) r s = Some s' \<and> running (heap s' r) \<and> done' (heap s' r) = done' (heap s r)
              \<and> new_events s s' = [Invoked r (heap s r) (registry s), Registered r]
              \<and> isRunning s' = isRunning s \<and> doneCallback s' = doneCallback s))
   \<and> onResolved k r s = runStep k (set_done r s)
   \<and> (\<not> truthy v \<longrightarrow> cb k r v s = runStep k (set_done r s))
   \<and> done' (heap (set_done r s) r) \<and> \<not> running (heap (set_done r s) r)
   \<and> (done' (heap s r) \<and> \<not> running (heap s r)
        \<longrightarrow> cb k r v s = (if truthy v then Some (None, stop v False s) else runStep k s)
            \<and> (\<forall>x s'. cb k r v s = Some (x, s') \<longrightarrow> heap s' r = heap s r))"
proof -
  have 1: "outcome (behaviour (fn (heap s r))) = Returns True \<and> sync_calls (behaviour (fn (heap s r))) = []
      \<longrightarrow> (\<exists>s'. runTask (Suc k) r s = Some s' \<and> running (heap s' r) \<and> done' (heap s' r) = done' (heap s r)
              \<and> new_events s s' = [Invoked r (heap s r) (registry s), Registered r]
              \<and> isRunning s' = isRunning s \<and> doneCallback s' = doneCallback s)"
  proof
    assume a: "outcome (behaviour (fn (heap s r))) = Returns True \<and> sync_calls (behaviour (fn (heap s r))) = []"
    let ?s' = "(start r s)\<lparr>trace := trace (start r s) @ [Registered r]\<rparr>"
    have "runTask (Suc k) r s = Some ?s'"
      using a by (simp add: runTask_Suc calls.simps after_call_None)
    moreover have "new_events s ?s' = [Invoked r (heap s r) (registry s), Registered r]"
      by (simp add: new_events_def start_def set_running_def)
    ultimately show "\<exists>s'. runTask (Suc k) r s = Some s' \<and> running (heap s' r) \<and> done' (heap s' r) = done' (heap s r)
              \<and> new_events s s' = [Invoked r (heap s r) (registry s), Registered r]
              \<and> isRunning s' = isRunning s \<and> doneCallback s' = doneCallback s"
      by (simp add: start_def set_running_def)
  qed
  have 2: "onResolved k r s = runStep k (set_done r s)" by (simp add: onResolved_def)
  have 3: "\<not> truthy v \<longrightarrow> cb k r v s = runStep k (set_done r s)" by (simp add: cb.simps)
  have 4: "done' (heap (set_done r s) r)" "\<not> running (heap (set_done r s) r)"
    by (simp_all add: set_done_def)
  have 5: "done' (heap s r) \<and> \<not> running (heap s r)
        \<longrightarrow> cb k r v s = (if truthy v then Some (None, stop v False s) else runStep k s)
            \<and> (\<forall>x s'. cb k r v s = Some (x, s') \<longrightarrow> heap s' r = heap s r)"
  proof
    assume d: "done' (heap s r) \<and> \<not> running (heap s r)"
    then have i: "set_done r s = s" by (simp add: set_done_idem)
    have c: "cb k r v s = (if truthy v then Some (None, stop v False s) else runStep k s)"
      by (simp add: cb.simps i)
    have "heap s' r = heap s r" if "cb k r v s = Some (x, s')" for x s'
    proof -
      have "\<not> unstarted s r" using d by (simp add: unstarted_def)
      with that have "evolves s s'" by (rule cb_evolves)
      then show ?thesis using d by (simp add: evolves_def frame_def)
    qed
    with c show "cb k r v s = (if truthy v then Some (None, stop v False s) else runStep k s)
            \<and> (\<forall>x s'. cb k r v s = Some (x, s') \<longrightarrow> heap s' r = heap s r)" by blast
  qed
  show ?thesis by (intro conjI; fact)
qed

theorem deferred_handle_and_late_callback_witness:
  "done' (heap handle_resolved 0) \<and> \<not> running (heap handle_resolved 0)
   \<and> truthy (Str ''late'')
   \<and> cb 2 0 (Str ''late'') handle_resolved = Some (None, stop (Str ''late'') False handle_resolved)
   \<and> heap (stop (Str ''late'') False handle_resolved) 0 = heap handle_resolved 0
   \<and> outcome (behaviour (fn (heap handle_and_waiting 0))) = Returns True
   \<and> sync_calls (behaviour (fn (heap handle_and_waiting 0))) = []
   \<and> (\<exists>s'. runTask (Suc 0) 0 handle_and_waiting = Some s' \<and> running (heap s' 0))"
proof -
  have 1: "done' (heap handle_resolved 0) \<and> \<not> running (heap handle_resolved 0)" by code_simp
  have 2: "outcome (behaviour (fn (heap handle_and_waiting 0))) = Returns True
           \<and> sync_calls (behaviour (fn (heap handle_and_waiting 0))) = []" by code_simp
  note a = deferred_handle_and_late_callback [of handle_resolved 0 2 "Str ''late''"]
  note b = deferred_handle_and_late_callback [of handle_and_waiting 0 0 Null]
  from a 1 have c: "cb 2 0 (Str ''late'') handle_resolved
      = Some (None, stop (Str ''late'') False handle_resolved)" by simp
  with a 1 have "heap (stop (Str ''late'') False handle_resolved) 0 = heap handle_resolved 0" by blast
  moreover from b 2 have "\<exists>s'. runTask (Suc 0) 0 handle_and_waiting = Some s' \<and> running (heap s' 0)"
    by blast
  ultimately show ?thesis using 1 2 c by simp
qed

text \<open>
  C6. An executor that declares no parameter, returns no handle and does
  not throw: whenever \<open>runTask\<close> returns, the task is done and not running.
  When the executor makes no use of the callback (it declares none),
  \<open>runTask\<close> returns at any depth bound above zero, and the only event is
  the invocation, so nothing is notified; the running flag, the notifier and
  every other task object are as before.
\<close>

theorem synchronous_executor:
  assumes "behaviour (fn (heap s r)) = e" "params e = 0" "outcome e = Returns False"
  shows "(\<forall>s'. runTask (Suc k) r s = Some s' \<longrightarrow> done' (heap s' r) \<and> \<not> running (heap s' r))
       \<and> (sync_calls e = [] \<longrightarrow>
            (\<exists>s'. runTask (Suc k) r s = Some s'
               \<and> done' (heap s' r) \<and> \<not> running (heap s' r)
               \<and> new_events s s' = [Invoked r (heap s r) (registry s)]
               \<and> isRunning s' = isRunning s \<and> doneCallback s' = doneCallback s
               \<and> (\<forall>q. q \<noteq> r \<longrightarrow> heap s' q = heap s q)))"
proof (rule conjI; rule allI impI)
  fix s'
  show "runTask (Suc k) r s = Some s' \<longrightarrow> done' (heap s' r) \<and> \<not> running (heap s' r)"
  proof
    assume "runTask (Suc k) r s = Some s'"
    then obtain s2 thrown where s': "s' = after_call r (heap s r) thrown s2"
      by (auto simp: runTask_Suc split: option.splits)
    have "after_call r (heap s r) thrown s2 = set_done r s2
        \<or> (\<exists>m. after_call r (heap s r) thrown s2 = set_done r (stop m False s2))"
      using assms by (cases thrown) (auto simp: after_call_None after_call_Some obj_length_behaviour)
    then show "done' (heap s' r) \<and> \<not> running (heap s' r)"
      unfolding s' by (auto simp: set_done_def)
  qed
next
  assume c: "sync_calls e = []"
  have "runTask (Suc k) r s = Some (set_done r (start r s))"
    using assms c by (simp add: runTask_Suc calls.simps after_call_None obj_length_behaviour)
  moreover have "new_events s (set_done r (start r s)) = [Invoked r (heap s r) (registry s)]"
    by (simp add: new_events_def set_done_def start_def set_running_def)
  ultimately show "\<exists>s'. runTask (Suc k) r s = Some s'
               \<and> done' (heap s' r) \<and> \<not> running (heap s' r)
               \<and> new_events s s' = [Invoked r (heap s r) (registry s)]
               \<and> isRunning s' = isRunning s \<and> doneCallback s' = doneCallback s
               \<and> (\<forall>q. q \<noteq> r \<longrightarrow> heap s' q = heap s q)"
    by (simp add: set_done_def start_def set_running_def)
qed

theorem synchronous_executor_witness:
  "params (behaviour (fn (heap two_tasks 0))) = 0
   \<and> sync_calls (behaviour (fn (heap two_tasks 0))) = []
   \<and> outcome (behaviour (fn (heap two_tasks 0))) = Returns False
   \<and> (\<exists>s'. runTask (Suc 0) 0 two_tasks = Some s' \<and> done' (heap s' 0) \<and> \<not> running (heap s' 0)
         \<and> new_events two_tasks s' = [Invoked 0 (heap two_tasks 0) (registry two_tasks)])"
proof -
  have 1: "params (behaviour (fn (heap two_tasks 0))) = 0" by code_simp
  have 2: "sync_calls (behaviour (fn (heap two_tasks 0))) = []" by code_simp
  have 3: "outcome (behaviour (fn (heap two_tasks 0))) = Returns False" by code_simp
  from synchronous_executor [OF refl 1 3, of 0] 1 2 3 show ?thesis by blast
qed

text \<open>
  C7. \<open>run\<close> with names while a run is active hands the new names followed
  by the stored sequence to the sequencer. When that returns \<open>sq\<close> and the
  depth bound is at least its length, \<open>run\<close> returns without exception and
  stores \<open>sq\<close>: it starts with the sequence computed for the new names alone
  and holds every name of the sequence that was stored; the invocations made
  are in order, so no task that is running or done is started again.
\<close>

theorem run_while_running:
  assumes "isRunning s" "names \<noteq> []"
    and "sequence (registry s) (names @ seq s) [] [] = Inr sq" "length sq \<le> k"
  shows "\<exists>s' new rest. run k names nf s = Some (None, s') \<and> seq s' = sq
           \<and> sequence (registry s) names [] [] = Inr new \<and> sq = new @ rest
           \<and> set (seq s) \<subseteq> set sq
           \<and> list_all in_order (new_events s s')"
proof -
  have rq: "requested s names = names @ seq s" using assms(1,2) by (simp add: requested_def)
  from run_returns [of s names sq k nf] assms(3,4) rq obtain s' where
    r: "run k names nf s = Some (None, s')" and e: "evolves (entry sq nf s) s'" by auto
  from assms(3) obtain new where n: "sequence (registry s) names [] [] = Inr new"
    and o: "sequence (registry s) (seq s) new [] = Inr sq"
    by (auto simp: sequence_append split: sum.splits)
  from sequence_inv [OF o] have "\<exists>rest. sq = new @ rest" "set (seq s) \<subseteq> set sq" by blast+
  moreover have "seq s' = sq" "list_all in_order (new_events s s')"
    using e by (auto simp: evolves_def frame_def orderly_def new_events_entry)
  ultimately show ?thesis using r n by blast
qed

theorem run_while_running_witness:
  "isRunning a_waiting \<and> seq a_waiting = [''a'']
   \<and> sequence (registry a_waiting) ([''b''] @ seq a_waiting) [] [] = Inr [''b'', ''a'']
   \<and> (\<exists>s' new rest. run 2 [''b''] None a_waiting = Some (None, s') \<and> seq s' = [''b'', ''a'']
         \<and> sequence (registry a_waiting) [''b''] [] [] = Inr new \<and> [''b'', ''a''] = new @ rest)"
proof -
  have 1: "isRunning a_waiting" by code_simp
  have 2: "seq a_waiting = [''a'']" by code_simp
  have 3: "sequence (registry a_waiting) ([''b''] @ seq a_waiting) [] [] = Inr [''b'', ''a'']"
    by code_simp
  have 4: "length [''b'', ''a''] \<le> (2::nat)" by simp
  from run_while_running [OF 1 _ 3 4, of None] 1 2 3 show ?thesis by auto
qed




text \<open>
  C9. \<open>run\<close> never resets a done flag. So when every task of the sequence
  that \<open>run\<close> computes is already done, \<open>run\<close>, at any depth bound,
  invokes no executor and stops: the only event is the notification, with
  \<open>null\<close>, of the notifier given or still registered; the orchestrator is not
  running and the task objects are as they were.
\<close>

theorem run_again_when_all_done:
  assumes "sequence (registry s) (requested s names) [] [] = Inr sq"
    and "\<forall>n \<in> set sq. case lookup s n of None \<Rightarrow> False | Some r \<Rightarrow> done' (heap s r)"
  shows "(\<exists>s'. run k names nf s = Some (None, s')
           \<and> \<not> list_ex invoked (new_events s s')
           \<and> new_events s s' =
               (case (case nf of None \<Rightarrow> doneCallback s | Some c \<Rightarrow> Some c) of
                  None \<Rightarrow> [] | Some c \<Rightarrow> [Notified c Null])
           \<and> \<not> isRunning s' \<and> doneCallback s' = None \<and> seq s' = sq \<and> heap s' = heap s)
       \<and> (\<forall>j asked c x s'. run j asked c s = Some (x, s')
             \<longrightarrow> (\<forall>r. done' (heap s r) \<longrightarrow> done' (heap s' r)))"
proof
  show "\<forall>j asked c x s'. run j asked c s = Some (x, s')
          \<longrightarrow> (\<forall>r. done' (heap s r) \<longrightarrow> done' (heap s' r))"
  proof (intro allI impI)
    fix j asked c x s' r assume "run j asked c s = Some (x, s')" and d: "done' (heap s r)"
    from run_cases [OF this(1)] consider "s' = with_notifier c s"
      | sq' where "evolves (entry sq' c s) s'" by blast
    then show "done' (heap s' r)"
    proof cases
      case 1
      then show ?thesis using d by (cases c) (simp_all add: with_notifier_def)
    next
      case 2
      then have "frame (entry sq' c s) s'" by (simp add: evolves_def)
      then show ?thesis using d by (auto simp: frame_def)
    qed
  qed
  let ?e = "entry sq nf s"
  have "scan k (seq ?e) ?e = Some (None, stop Null True ?e)"
    by (rule scan_all_done) (use assms(2) in \<open>auto split: option.splits\<close>)
  then have "run k names nf s = Some (None, stop Null True ?e)"
    using assms(1) by (simp add: run_unfold runStep.simps)
  moreover have "new_events s (stop Null True ?e) =
      (case (case nf of None \<Rightarrow> doneCallback s | Some c \<Rightarrow> Some c) of
                  None \<Rightarrow> [] | Some c \<Rightarrow> [Notified c Null])"
    by (cases nf; cases "doneCallback s") (simp_all add: new_events_def stop_def)
  ultimately show "\<exists>s'. run k names nf s = Some (None, s')
           \<and> \<not> list_ex invoked (new_events s s')
           \<and> new_events s s' =
               (case (case nf of None \<Rightarrow> doneCallback s | Some c \<Rightarrow> Some c) of
                  None \<Rightarrow> [] | Some c \<Rightarrow> [Notified c Null])
           \<and> \<not> isRunning s' \<and> doneCallback s' = None \<and> seq s' = sq \<and> heap s' = heap s"
    by (cases nf; cases "doneCallback s") (simp_all add: stop_def)
qed

theorem run_again_when_all_done_witness:
  "sequence (registry two_done) (requested two_done [''b'']) [] [] = Inr [''a'', ''b'']
   \<and> done' (heap two_done 0) \<and> done' (heap two_done 1)
   \<and> (\<exists>s'. run 0 [''b''] (Some 8) two_done = Some (None, s')
         \<and> new_events two_done s' = [Notified 8 Null] \<and> \<not> isRunning s')"
proof -
  have 1: "sequence (registry two_done) (requested two_done [''b'']) [] [] = Inr [''a'', ''b'']"
    by code_simp
  have 2: "\<forall>n \<in> set [''a'', ''b'']. case lookup two_done n of None \<Rightarrow> False | Some r \<Rightarrow> done' (heap two_done r)"
    by code_simp
  have 3: "done' (heap two_done 0) \<and> done' (heap two_done 1)" by code_simp
  from run_again_when_all_done [OF 1 2, of 0 "Some 8"] 1 3 show ?thesis by auto
qed

text \<open>
  C10. An executor that declares no parameter and throws: whenever
  \<open>runTask\<close> returns, the task is done and not running and the orchestrator
  is stopped with its notifier cleared. When the executor made no callback
  before it threw, \<open>runTask\<close> does return, and the events are the invocation
  and, if a notifier was registered, its notification with the error (or the
  default message when the thrown value is falsy).
\<close>

theorem throwing_executor_marked_done:
  assumes "behaviour (fn (heap s r)) = e" "params e = 0" "outcome e = Throws v"
  shows "(\<forall>s'. runTask (Suc k) r s = Some s' \<longrightarrow>
            done' (heap s' r) \<and> \<not> running (heap s' r) \<and> \<not> isRunning s' \<and> doneCallback s' = None)
       \<and> (sync_calls e = [] \<longrightarrow>
            (\<exists>s'. runTask (Suc k) r s = Some s'
               \<and> new_events s s' =
                   Invoked r (heap s r) (registry s)
                   # (case doneCallback s of None \<Rightarrow> []
                      | Some c \<Rightarrow> [Notified c (or_else v (Str (name (heap s r) @ '' threw an exception'')))])))"
proof (rule conjI; rule allI impI)
  fix s'
  show "runTask (Suc k) r s = Some s' \<longrightarrow>
          done' (heap s' r) \<and> \<not> running (heap s' r) \<and> \<not> isRunning s' \<and> doneCallback s' = None"
  proof
    assume "runTask (Suc k) r s = Some s'"
    then obtain s2 thrown where s': "s' = after_call r (heap s r) (Some thrown) s2"
      using assms(3) by (auto simp: runTask_Suc assms(1) split: option.splits)
    show "done' (heap s' r) \<and> \<not> running (heap s' r) \<and> \<not> isRunning s' \<and> doneCallback s' = None"
      unfolding s' after_call_Some using assms(1,2)
      by (simp add: obj_length_behaviour set_done_def stop_def split: option.splits)
  qed
next
  assume c: "sync_calls e = []"
  let ?m = "or_else v (Str (name (heap s r) @ '' threw an exception''))"
  have "runTask (Suc k) r s = Some (set_done r (stop ?m False (start r s)))"
    using assms c by (simp add: runTask_Suc calls.simps after_call_Some obj_length_behaviour)
  moreover have "new_events s (set_done r (stop ?m False (start r s))) =
      Invoked r (heap s r) (registry s) # (case doneCallback s of None \<Rightarrow> [] | Some c \<Rightarrow> [Notified c ?m])"
    by (simp add: new_events_def set_done_def stop_def start_def set_running_def split: option.splits)
  ultimately show "\<exists>s'. runTask (Suc k) r s = Some s' \<and> new_events s s' =
      Invoked r (heap s r) (registry s) # (case doneCallback s of None \<Rightarrow> [] | Some c \<Rightarrow> [Notified c ?m])"
    by simp
qed

theorem throwing_executor_marked_done_witness:
  "params (behaviour (fn (heap one_throwing 0))) = 0
   \<and> outcome (behaviour (fn (heap one_throwing 0))) = Throws (Str ''boom'')
   \<and> (\<exists>s'. runTask (Suc 0) 0 one_throwing = Some s'
         \<and> done' (heap s' 0) \<and> \<not> running (heap s' 0) \<and> \<not> isRunning s'
         \<and> new_events one_throwing s' =
             [Invoked 0 (heap one_throwing 0) (registry one_throwing), Notified 7 (Str ''boom'')])"
proof -
  have 1: "params (behaviour (fn (heap one_throwing 0))) = 0" by code_simp
  have 2: "outcome (behaviour (fn (heap one_throwing 0))) = Throws (Str ''boom'')" by code_simp
  have 3: "sync_calls (behaviour (fn (heap one_throwing 0))) = []" by code_simp
  have 4: "doneCallback one_throwing = Some 7" by code_simp
  have 5: "name (heap one_throwing 0) = ''t''" by code_simp
  from throwing_executor_marked_done [OF refl 1 2, of 0] 3 4 5 obtain s' where
    "runTask (Suc 0) 0 one_throwing = Some s'"
    "new_events one_throwing s' =
       [Invoked 0 (heap one_throwing 0) (registry one_throwing), Notified 7 (Str ''boom'')]"
    by (auto simp: or_else_def)
  moreover from this throwing_executor_marked_done [OF refl 1 2, of 0]
  have "done' (heap s' 0) \<and> \<not> running (heap s' 0) \<and> \<not> isRunning s'" by blast
  ultimately show ?thesis using 1 2 by blast
qed

end
